theory Spec2Isabelle
  imports Main "HOL-Library.Word" "HOL-Library.AList" "HOL-Library.Multiset"
    "HOL-Library.Signed_Division"
begin

section \<open>Data model of \<^verbatim>\<open>main.go\<close>\<close>

text \<open>
  The counters of \<^verbatim>\<open>Stats\<close> are \<^verbatim>\<open>atomic.Int64\<close>: 64-bit two's complement values
  whose addition wraps. Go's \<^verbatim>\<open>int\<close> is taken at its width on 64-bit targets.
  Ordering comparisons of the source are signed (\<open><s\<close>).
\<close>

type_synonym int64 = "64 word"
type_synonym go_int = "64 word"

definition Millisecond :: int64 where "Millisecond = 1000000"
definition Second :: int64 where "Second = 1000000000"
definition Hour :: int64 where "Hour = 3600000000000"

text \<open>
  \<^verbatim>\<open>StatusCodes\<close> is a \<^verbatim>\<open>sync.Map\<close> from status code to an \<^verbatim>\<open>int64\<close> count. It is kept
  as an association list. \<open>Load\<close> and \<open>Store\<close> are the two operations the source calls,
  each atomic on its own: \<open>Load\<close> gives the value of a key if it has one, \<open>Store\<close>
  replaces the value of a key or adds the key.
\<close>

record Stats =
  TotalRequests :: int64
  SuccessfulRequests :: int64
  FailedRequests :: int64
  TotalDuration :: int64
  MinDuration :: int64
  MaxDuration :: int64
  StatusCodes :: "(go_int \<times> int64) list"

definition Load :: "(go_int \<times> int64) list \<Rightarrow> go_int \<Rightarrow> int64 option" where
  "Load m key = map_of m key"

definition Store :: "(go_int \<times> int64) list \<Rightarrow> go_int \<Rightarrow> int64 \<Rightarrow> (go_int \<times> int64) list" where
  "Store m key v = AList.update key v m"

record Config =
  URL :: string
  NumRequests :: go_int
  Concurrency :: go_int
  Timeout :: go_int
  Method :: string
  Body :: string
  Headers :: "string list"
  KeepAlive :: bool

text \<open>
  \<^verbatim>\<open>main\<close>, lines 56-57: a zero-valued \<^verbatim>\<open>Stats\<close> whose minimum is set to one hour.
\<close>

definition new_stats :: Stats where
  "new_stats = \<lparr>TotalRequests = 0, SuccessfulRequests = 0, FailedRequests = 0,
     TotalDuration = 0, MinDuration = Hour, MaxDuration = 0, StatusCodes = []\<rparr>"

section \<open>One request: \<^verbatim>\<open>sendRequest\<close>\<close>

text \<open>
  A worker goroutine is a program counter and its local variables. Every access to
  shared memory (an atomic operation on a counter, a \<^verbatim>\<open>sync.Map\<close> call, a channel
  operation) is one step of its own, so that the steps of different workers interleave
  exactly where the goroutines can. Local computation is merged into the shared access
  that follows or precedes it.

  The program counters, by source line: \<open>Recv\<close> 215, \<open>ClientDo\<close> 223-227,
  \<open>AddTotal\<close> 229, \<open>AddDuration\<close> 230, \<open>LoadMin\<close> 235-236, \<open>CasMin\<close> 237,
  \<open>LoadMax\<close> 246-247, \<open>CasMax\<close> 248, \<open>CheckErr\<close> 256-257 and 269, \<open>LoadCode\<close> 272,
  \<open>StoreCode\<close> 273 and 275, \<open>SendResult\<close> 217, \<open>Done\<close> 213 (the deferred
  \<^verbatim>\<open>wg.Done()\<close> has run).
\<close>

datatype pc =
    Recv
  | ClientDo
  | AddTotal
  | AddDuration
  | LoadMin
  | CasMin int64
  | LoadMax
  | CasMax int64
  | CheckErr
  | LoadCode go_int
  | StoreCode go_int "int64 option"
  | SendResult
  | Done

text \<open>
  The local variables of \<^verbatim>\<open>sendRequest\<close>. \<open>requestNum\<close> is the job index (one of the
  values \<open>0..n-1\<close> sent at line 136). \<open>resp\<close> is \<open>None\<close> when \<^verbatim>\<open>client.Do\<close> returned an
  error and \<open>Some code\<close> when it returned a response with that status code.
\<close>

record worker =
  pc :: pc
  requestNum :: nat
  durationNs :: int64
  resp :: "go_int option"

text \<open>
  The HTTP call is the environment: an executor gives, for each job index, the elapsed
  time measured around \<^verbatim>\<open>client.Do\<close> (lines 225-227) and its result. The request sent
  is a clone of the template (line 223); what the clone shares with the template is
  modelled with \<^verbatim>\<open>createBaseRequest\<close> below. Closing and draining the response body (lines
  264-267) does not touch the statistics.
\<close>

type_synonym executor = "nat \<Rightarrow> int64 \<times> go_int option"

definition sendRequest_step :: "executor \<Rightarrow> worker \<Rightarrow> Stats \<Rightarrow> worker \<times> Stats" where
  "sendRequest_step exec k st =
     (case pc k of
        ClientDo \<Rightarrow>
          (k\<lparr>pc := AddTotal, durationNs := fst (exec (requestNum k)),
             resp := snd (exec (requestNum k))\<rparr>, st)
      | AddTotal \<Rightarrow>
          (k\<lparr>pc := AddDuration\<rparr>, st\<lparr>TotalRequests := TotalRequests st + 1\<rparr>)
      | AddDuration \<Rightarrow>
          (k\<lparr>pc := LoadMin\<rparr>, st\<lparr>TotalDuration := TotalDuration st + durationNs k\<rparr>)
      | LoadMin \<Rightarrow>
          (if durationNs k <s MinDuration st
           then (k\<lparr>pc := CasMin (MinDuration st)\<rparr>, st)
           else (k\<lparr>pc := LoadMax\<rparr>, st))
      | CasMin currentMin \<Rightarrow>
          (if MinDuration st = currentMin
           then (k\<lparr>pc := LoadMax\<rparr>, st\<lparr>MinDuration := durationNs k\<rparr>)
           else (k\<lparr>pc := LoadMin\<rparr>, st))
      | LoadMax \<Rightarrow>
          (if MaxDuration st <s durationNs k
           then (k\<lparr>pc := CasMax (MaxDuration st)\<rparr>, st)
           else (k\<lparr>pc := CheckErr\<rparr>, st))
      | CasMax currentMax \<Rightarrow>
          (if MaxDuration st = currentMax
           then (k\<lparr>pc := CheckErr\<rparr>, st\<lparr>MaxDuration := durationNs k\<rparr>)
           else (k\<lparr>pc := LoadMax\<rparr>, st))
      | CheckErr \<Rightarrow>
          (case resp k of
             None \<Rightarrow> (k\<lparr>pc := SendResult\<rparr>, st\<lparr>FailedRequests := FailedRequests st + 1\<rparr>)
           | Some code \<Rightarrow>
               (k\<lparr>pc := LoadCode code\<rparr>,
                st\<lparr>SuccessfulRequests := SuccessfulRequests st + 1\<rparr>))
      | LoadCode code \<Rightarrow>
          (k\<lparr>pc := StoreCode code (Load (StatusCodes st) code)\<rparr>, st)
      | StoreCode code loaded \<Rightarrow>
          (case loaded of
             Some cnt \<Rightarrow>
               (k\<lparr>pc := SendResult\<rparr>,
                st\<lparr>StatusCodes := Store (StatusCodes st) code (cnt + 1)\<rparr>)
           | None \<Rightarrow>
               (k\<lparr>pc := SendResult\<rparr>, st\<lparr>StatusCodes := Store (StatusCodes st) code 1\<rparr>))
      | _ \<Rightarrow> (k, st))"

section \<open>The worker pool: \<^verbatim>\<open>worker\<close> and \<^verbatim>\<open>runLoadTest\<close>\<close>

text \<open>
  The main goroutine after the workers are started (line 132): it sends the job indices
  (\<open>SendJobs i\<close>, lines 135-137; at \<open>i = n\<close> it closes \<^verbatim>\<open>jobs\<close>, line 138), starts the
  goroutine that waits for the workers and closes \<^verbatim>\<open>results\<close> (\<open>GoWait\<close>, lines
  141-144), and counts the results until that channel is closed and empty (\<open>Progress\<close>,
  lines 147-153; the progress lines it prints are left out).
\<close>

datatype main_pc = SendJobs nat | GoWait | Progress | Returned

text \<open>
  The shared state: the statistics, the two channels (the buffered values of \<^verbatim>\<open>jobs\<close>,
  the number of buffered values of \<^verbatim>\<open>results\<close>, and whether each is closed), the
  workers, the main goroutine with its counter \<open>completed\<close>, and whether the waiting
  goroutine has been started. \<open>calls\<close> is the record of the calls of \<^verbatim>\<open>client.Do\<close>, the
  one effect of the program outside its own memory: which worker made the call, for which
  job.
\<close>

record state =
  stats :: Stats
  jobs :: "nat list"
  jobs_closed :: bool
  results :: nat
  results_closed :: bool
  workers :: "worker list"
  main :: main_pc
  waiting :: bool
  completed :: nat
  calls :: "(nat \<times> nat) list"

text \<open>
  A step is \<open>None\<close> when the goroutine is blocked (an empty open channel, a full
  channel, a wait group that is not yet zero) or has finished. Both channels have
  capacity \<open>n\<close>, the number of requests. \<open>worker_op\<close> is one operation of the loop of
  \<^verbatim>\<open>worker\<close> (receive a job, the operations of \<^verbatim>\<open>sendRequest\<close>, send the result) on the
  worker's own variables and the shared state; the printing of the first three errors
  (line 258) writes to the terminal only and is left out.
\<close>

definition worker_op ::
  "executor \<Rightarrow> nat \<Rightarrow> nat \<Rightarrow> worker \<Rightarrow> state \<Rightarrow> (worker \<times> state) option" where
  "worker_op exec n w k s =
     (case pc k of
        Recv \<Rightarrow>
          (case jobs s of
             j # js \<Rightarrow> Some (k\<lparr>pc := ClientDo, requestNum := j\<rparr>, s\<lparr>jobs := js\<rparr>)
           | [] \<Rightarrow> if jobs_closed s then Some (k\<lparr>pc := Done\<rparr>, s) else None)
      | ClientDo \<Rightarrow>
          Some (fst (sendRequest_step exec k (stats s)),
                s\<lparr>calls := calls s @ [(w, requestNum k)]\<rparr>)
      | SendResult \<Rightarrow>
          if results s < n
          then Some (k\<lparr>pc := Recv\<rparr>, s\<lparr>results := Suc (results s)\<rparr>)
          else None
      | Done \<Rightarrow> None
      | _ \<Rightarrow>
          Some (fst (sendRequest_step exec k (stats s)),
                s\<lparr>stats := snd (sendRequest_step exec k (stats s))\<rparr>))"

text \<open>
  Worker \<open>w\<close> of the pool takes its next operation. The main goroutine takes its next
  operation. The waiting goroutine closes \<^verbatim>\<open>results\<close> once \<^verbatim>\<open>wg.Wait()\<close> can return, that
  is once every worker has run its deferred \<^verbatim>\<open>wg.Done()\<close>.
\<close>

definition worker_step :: "executor \<Rightarrow> nat \<Rightarrow> nat \<Rightarrow> state \<Rightarrow> state option" where
  "worker_step exec n w s =
     (if length (workers s) \<le> w then None
      else case worker_op exec n w (workers s ! w) s of
        None \<Rightarrow> None
      | Some (k', s') \<Rightarrow> Some (s'\<lparr>workers := (workers s)[w := k']\<rparr>))"

definition main_step :: "nat \<Rightarrow> state \<Rightarrow> state option" where
  "main_step n s =
     (case main s of
        SendJobs i \<Rightarrow>
          if i < n
          then (if length (jobs s) < n
                then Some (s\<lparr>jobs := jobs s @ [i], main := SendJobs (Suc i)\<rparr>)
                else None)
          else Some (s\<lparr>jobs_closed := True, main := GoWait\<rparr>)
      | GoWait \<Rightarrow> Some (s\<lparr>waiting := True, main := Progress\<rparr>)
      | Progress \<Rightarrow>
          if 0 < results s
          then Some (s\<lparr>results := results s - 1, completed := Suc (completed s)\<rparr>)
          else if results_closed s then Some (s\<lparr>main := Returned\<rparr>)
          else None
      | Returned \<Rightarrow> None)"

definition waiter_step :: "state \<Rightarrow> state option" where
  "waiter_step s =
     (if waiting s \<and> \<not> results_closed s \<and> list_all (\<lambda>k. pc k = Done) (workers s)
      then Some (s\<lparr>results_closed := True\<rparr>)
      else None)"

datatype thread = Main | Waiter | Worker nat

fun step :: "executor \<Rightarrow> nat \<Rightarrow> thread \<Rightarrow> state \<Rightarrow> state option" where
  "step exec n Main s = main_step n s"
| "step exec n Waiter s = waiter_step s"
| "step exec n (Worker w) s = worker_step exec n w s"

text \<open>
  A schedule is the order in which the goroutines take their steps. A goroutine that is
  scheduled while blocked leaves the state as it is.
\<close>

definition sched_step :: "executor \<Rightarrow> nat \<Rightarrow> thread \<Rightarrow> state \<Rightarrow> state" where
  "sched_step exec n t s = (case step exec n t s of None \<Rightarrow> s | Some s' \<Rightarrow> s')"

primrec run :: "executor \<Rightarrow> nat \<Rightarrow> thread list \<Rightarrow> state \<Rightarrow> state" where
  "run exec n [] s = s"
| "run exec n (t # ts) s = run exec n ts (sched_step exec n t s)"

text \<open>
  The state after the loop of lines 129-132: \<open>c\<close> workers, each about to receive from
  \<^verbatim>\<open>jobs\<close>. No worker can take a step before the first job is sent, so the order in which
  they were started makes no difference.
\<close>

definition idle :: worker where
  "idle = \<lparr>pc = Recv, requestNum = 0, durationNs = 0, resp = None\<rparr>"

definition start :: "nat \<Rightarrow> Stats \<Rightarrow> state" where
  "start c st = \<lparr>stats = st, jobs = [], jobs_closed = False, results = 0,
     results_closed = False, workers = replicate c idle, main = SendJobs 0,
     waiting = False, completed = 0, calls = []\<rparr>"

section \<open>Set-up: \<^verbatim>\<open>createHTTPClient\<close>, \<^verbatim>\<open>createBaseRequest\<close>, \<^verbatim>\<open>runLoadTest\<close>\<close>

record Transport =
  InsecureSkipVerify :: bool
  MaxIdleConns :: go_int
  MaxIdleConnsPerHost :: go_int
  MaxConnsPerHost :: go_int
  IdleConnTimeout :: int64
  ResponseHeaderTimeout :: int64
  DisableKeepAlives :: bool

record Client =
  client_Timeout :: int64
  client_Transport :: Transport

definition createHTTPClient :: "Config \<Rightarrow> Client" where
  "createHTTPClient config =
     \<lparr>client_Timeout = Timeout config * Second,
      client_Transport =
        \<lparr>InsecureSkipVerify = True,
         MaxIdleConns = Concurrency config * 2,
         MaxIdleConnsPerHost = Concurrency config * 2,
         MaxConnsPerHost = Concurrency config * 2,
         IdleConnTimeout = 90 * Second,
         ResponseHeaderTimeout = Timeout config * Second,
         DisableKeepAlives = (\<not> KeepAlive config)\<rparr>\<rparr>"

text \<open>
  What the set-up takes from Go's standard library without defining it is a parameter:
  whether \<^verbatim>\<open>http.NewRequestWithContext\<close> rejects a method and a URL,
  \<^verbatim>\<open>textproto.CanonicalMIMEHeaderKey\<close> (applied by \<^verbatim>\<open>Header.Set\<close>), \<^verbatim>\<open>strings.TrimSpace\<close>, and
  from package \<^verbatim>\<open>runtime\<close> the platform's constants \<^verbatim>\<open>maxAlloc\<close> and \<^verbatim>\<open>hchanSize\<close> (in bytes)
  and whether \<^verbatim>\<open>mallocgc\<close> can give a block of so many bytes.
\<close>

record stdlib =
  rejects :: "string \<Rightarrow> string \<Rightarrow> bool"
  CanonicalMIMEHeaderKey :: "string \<Rightarrow> string"
  TrimSpace :: "string \<Rightarrow> string"
  maxAlloc :: nat
  hchanSize :: nat
  mallocgc :: "nat \<Rightarrow> bool"

text \<open>
  The errors of the set-up and of the transport: \<^verbatim>\<open>http.NewRequestWithContext\<close> rejects
  its arguments; the transport finds that a body gave another number of bytes than the
  request's \<^verbatim>\<open>ContentLength\<close> announces (\<^verbatim>\<open>http: ContentLength=2 with Body length 0\<close>); a
  body that was read cannot be rewound; no connection could be had.
\<close>

datatype error =
    NewRequestError
  | BodyLengthError int64 nat
  | CannotRewind
  | ConnectError

text \<open>
  A request holds its header by value and its body by reference: \<open>req_Body\<close> is the
  address of a reader in a store, and the store gives the bytes of each reader that have
  not been read yet. \<^verbatim>\<open>http.NewRequestWithContext\<close> wraps the reader it is given
  (here the \<^verbatim>\<open>bytes.Buffer\<close> made from \<^verbatim>\<open>config.Body\<close>), and an empty method means GET.
  For a \<^verbatim>\<open>bytes.Buffer\<close> it also sets \<^verbatim>\<open>ContentLength\<close> to the length of the buffer and
  \<^verbatim>\<open>GetBody\<close> to a function that returns a new reader over the bytes the buffer held at that
  moment: \<open>req_GetBody\<close> is those bytes. A buffer of length zero becomes \<^verbatim>\<open>http.NoBody\<close>, which
  the transport treats like no body.
\<close>

type_synonym store = "string list"

record Request =
  req_Method :: string
  req_URL :: string
  req_Header :: "(string \<times> string) list"
  req_Body :: "nat option"
  req_GetBody :: "string option"
  req_ContentLength :: int64

definition NewRequestWithContext ::
  "stdlib \<Rightarrow> string \<Rightarrow> string \<Rightarrow> string option \<Rightarrow> store \<Rightarrow> error + Request \<times> store" where
  "NewRequestWithContext lib method url body h =
     (if rejects lib method url then Inl NewRequestError
      else case body of
        None \<Rightarrow>
          Inr (\<lparr>req_Method = (if method = [] then ''GET'' else method), req_URL = url,
                req_Header = [], req_Body = None, req_GetBody = None,
                req_ContentLength = 0\<rparr>, h)
      | Some b \<Rightarrow>
          if (of_nat (length b) :: int64) = 0
          then Inr (\<lparr>req_Method = (if method = [] then ''GET'' else method), req_URL = url,
                req_Header = [], req_Body = None, req_GetBody = Some [],
                req_ContentLength = 0\<rparr>, h @ [b])
          else Inr (\<lparr>req_Method = (if method = [] then ''GET'' else method), req_URL = url,
                req_Header = [], req_Body = Some (length h), req_GetBody = Some b,
                req_ContentLength = of_nat (length b)\<rparr>, h @ [b]))"

definition Header_Set ::
  "stdlib \<Rightarrow> (string \<times> string) list \<Rightarrow> string \<Rightarrow> string \<Rightarrow> (string \<times> string) list" where
  "Header_Set lib hdr key v = AList.update (CanonicalMIMEHeaderKey lib key) v hdr"

definition HasPrefix1 :: "string \<Rightarrow> char \<Rightarrow> bool" where
  "HasPrefix1 s c = (case s of [] \<Rightarrow> False | x # _ \<Rightarrow> x = c)"

definition Contains1 :: "string \<Rightarrow> char \<Rightarrow> bool" where
  "Contains1 s c = (c \<in> set s)"

text \<open>\<^verbatim>\<open>strings.SplitN(header, ":", 2)\<close>: two parts when there is a colon, one otherwise.\<close>

definition SplitN2 :: "string \<Rightarrow> (string \<times> string) option" where
  "SplitN2 s =
     (case dropWhile (\<lambda>c. c \<noteq> CHR '':'') s of
        [] \<Rightarrow> None
      | _ # rest \<Rightarrow> Some (takeWhile (\<lambda>c. c \<noteq> CHR '':'') s, rest))"

definition createBaseRequest :: "stdlib \<Rightarrow> Config \<Rightarrow> store \<Rightarrow> error + Request \<times> store" where
  "createBaseRequest lib config h =
     (case NewRequestWithContext lib (Method config) (URL config)
             (if Body config \<noteq> [] then Some (Body config) else None) h of
        Inl err \<Rightarrow> Inl err
      | Inr (req, h') \<Rightarrow>
          let h0 = Header_Set lib (Header_Set lib (Header_Set lib (req_Header req)
                     ''User-Agent'' ''Go-Load-Tester/1.24'') ''Accept'' ''*/*'')
                     ''Connection'' ''keep-alive'';
              h1 = (if Body config \<noteq> [] then
                      (if HasPrefix1 (Body config) CHR ''{'' \<or> HasPrefix1 (Body config) CHR ''[''
                       then Header_Set lib h0 ''Content-Type'' ''application/json''
                       else if Contains1 (Body config) CHR ''&'' \<and> Contains1 (Body config) CHR ''=''
                       then Header_Set lib h0 ''Content-Type''
                              ''application/x-www-form-urlencoded''
                       else Header_Set lib h0 ''Content-Type'' ''text/plain'')
                    else h0);
              h2 = fold (\<lambda>header hdr.
                          case SplitN2 header of
                            Some (key, v) \<Rightarrow>
                              Header_Set lib hdr (TrimSpace lib key) (TrimSpace lib v)
                          | None \<Rightarrow> hdr)
                     (Headers config) h1
          in Inr (req\<lparr>req_Header := h2\<rparr>, h'))"

text \<open>
  \<^verbatim>\<open>Request.Clone\<close> makes a deep copy of the request except for \<^verbatim>\<open>Body\<close>, of which
  it makes a shallow copy (so the standard library documents it): the clone's header is
  a value of its own, its body is the reader of the original, and \<^verbatim>\<open>GetBody\<close> and
  \<^verbatim>\<open>ContentLength\<close> are copied as they are.
\<close>

definition Clone :: "Request \<Rightarrow> Request" where
  "Clone r = \<lparr>req_Method = req_Method r, req_URL = req_URL r, req_Header = req_Header r,
     req_Body = req_Body r, req_GetBody = req_GetBody r,
     req_ContentLength = req_ContentLength r\<rparr>"

text \<open>
  What \<^verbatim>\<open>client.Do\<close> does with the body of a request, after \<^verbatim>\<open>net/http\<close>
  (\<^verbatim>\<open>Request.outgoingLength\<close>, \<^verbatim>\<open>transferWriter.writeBody\<close>, \<^verbatim>\<open>rewindBody\<close>,
  \<^verbatim>\<open>persistConn.shouldRetryRequest\<close> and the loop of \<^verbatim>\<open>Transport.roundTrip\<close>).

  Writing a request reads its body to the end. When the request announces a length and
  the body gives another number of bytes, the write fails; the head of the request is
  then still in the connection's write buffer (the body is an in-memory reader, so the
  head is not flushed early), and nothing has gone to the server.

  After such a failed write the transport tries again only when the connection was a
  reused one and the body can be had anew (there is none, or \<^verbatim>\<open>GetBody\<close> is set): it
  replaces the body by a new reader from \<^verbatim>\<open>GetBody\<close> and writes the request on the next
  connection it gets. On a connection that was just dialled the error is the result of
  \<^verbatim>\<open>client.Do\<close>. The list given to \<open>roundTrip\<close> says of each connection the transport
  gets in turn whether it is a reused one; the empty list is a dial that fails.
\<close>

definition outgoingLength :: "Request \<Rightarrow> int64" where
  "outgoingLength r =
     (if req_Body r = None then 0
      else if req_ContentLength r \<noteq> 0 then req_ContentLength r
      else - 1)"

definition write_request :: "Request \<Rightarrow> store \<Rightarrow> (error + string) \<times> store" where
  "write_request r h =
     (case req_Body r of
        None \<Rightarrow> (Inr [], h)
      | Some a \<Rightarrow>
          let sent = (if a < length h then h ! a else []) in
          if outgoingLength r = - 1 \<or> outgoingLength r = of_nat (length sent)
          then (Inr sent, h[a := []])
          else (Inl (BodyLengthError (outgoingLength r) (length sent)), h[a := []]))"

definition rewindBody :: "Request \<Rightarrow> store \<Rightarrow> (error + Request) \<times> store" where
  "rewindBody r h =
     (case req_Body r of
        None \<Rightarrow> (Inr r, h)
      | Some a \<Rightarrow>
          (case req_GetBody r of
             None \<Rightarrow> (Inl CannotRewind, h)
           | Some b \<Rightarrow> (Inr (r\<lparr>req_Body := Some (length h)\<rparr>), h @ [b])))"

fun roundTrip :: "bool list \<Rightarrow> Request \<Rightarrow> store \<Rightarrow> (error + string) \<times> store" where
  "roundTrip [] r h = (Inl ConnectError, h)"
| "roundTrip (reused # later) r h =
     (case write_request r h of
        (Inr sent, h') \<Rightarrow> (Inr sent, h')
      | (Inl err, h') \<Rightarrow>
          if reused \<and> (outgoingLength r = 0 \<or> req_GetBody r \<noteq> None)
          then (case rewindBody r h' of
                  (Inl err', h'') \<Rightarrow> (Inl err', h'')
                | (Inr r', h'') \<Rightarrow> roundTrip later r' h'')
          else (Inl err, h'))"

text \<open>
  Executions of \<^verbatim>\<open>sendRequest\<close> (line 223: clone the template; line 226: send the
  clone), in the order in which their bodies are written, each with the connections it
  gets: what each call of \<^verbatim>\<open>client.Do\<close> sent, or its error.
\<close>

fun send_clones :: "Request \<Rightarrow> bool list list \<Rightarrow> store \<Rightarrow> (error + string) list" where
  "send_clones baseReq [] h = []"
| "send_clones baseReq (attempt # others) h =
     (case roundTrip attempt (Clone baseReq) h of
        (res, h') \<Rightarrow> res # send_clones baseReq others h')"

definition send_all ::
  "stdlib \<Rightarrow> Config \<Rightarrow> bool list list \<Rightarrow> (error + string) list option" where
  "send_all lib config attempts =
     (case createBaseRequest lib config [] of
        Inl err \<Rightarrow> None
      | Inr (baseReq, h) \<Rightarrow> Some (send_clones baseReq attempts h))"

text \<open>
  \<^verbatim>\<open>make(chan T, size)\<close> is \<^verbatim>\<open>runtime.makechan\<close>: it panics (\<^verbatim>\<open>makechan: size out of range\<close>)
  when the size \<open>cap\<close> is negative or when the buffer, \<open>cap\<close> elements of \<open>elem_size\<close> bytes,
  overflows a \<^verbatim>\<open>uintptr\<close> or is larger than \<^verbatim>\<open>maxAlloc - hchanSize\<close>; otherwise it allocates
  the channel, and a failing allocation ends the process with the fatal error
  \<^verbatim>\<open>out of memory\<close>.
\<close>

datatype made = OutOfRange | OutOfMemory | Made

definition makechan :: "stdlib \<Rightarrow> nat \<Rightarrow> go_int \<Rightarrow> made" where
  "makechan lib elem_size cap =
     (if 2 ^ 64 \<le> elem_size * unat cap \<or>
         maxAlloc lib - hchanSize lib < elem_size * unat cap \<or> cap <s 0
      then OutOfRange
      else if mallocgc lib (hchanSize lib + elem_size * unat cap) then Made
      else OutOfMemory)"

text \<open>Both channels of lines 112-113 are made.\<close>

definition channels_made :: "stdlib \<Rightarrow> Config \<Rightarrow> bool" where
  "channels_made lib config \<longleftrightarrow>
     makechan lib 8 (NumRequests config) = Made \<and> makechan lib 1 (NumRequests config) = Made"

text \<open>
  \<^verbatim>\<open>runLoadTest\<close>. The channel of jobs (elements of type \<^verbatim>\<open>int\<close>, eight bytes) and the
  channel of results (elements of type \<^verbatim>\<open>bool\<close>, one byte) are made first, lines 112-113;
  a failure of \<^verbatim>\<open>createBaseRequest\<close> ends the process with \<^verbatim>\<open>os.Exit(1)\<close>; otherwise
  \<^verbatim>\<open>config.Concurrency\<close> workers are started (none when it is not positive) and the
  goroutines run under the given schedule. The loop that starts them calls \<^verbatim>\<open>wg.Add(1)\<close>
  once for each worker (line 130); the counter of a \<^verbatim>\<open>sync.WaitGroup\<close> is a 32-bit
  integer and \<^verbatim>\<open>Add\<close> panics (\<^verbatim>\<open>sync: negative WaitGroup counter\<close>) when it passes
  \<open>2^31 - 1\<close>, so a concurrency of \<open>2^31\<close> or more ends in that panic before any job is sent.
  The function has returned when the main goroutine is at \<open>Returned\<close>. Memory for the
  goroutines is taken to be there.
\<close>

datatype outcome = Panicked | Fatal | Exited go_int | Ran state

definition runLoadTest ::
  "stdlib \<Rightarrow> executor \<Rightarrow> Config \<Rightarrow> Stats \<Rightarrow> thread list \<Rightarrow> outcome" where
  "runLoadTest lib exec config st sched =
     (case makechan lib 8 (NumRequests config) of
        OutOfRange \<Rightarrow> Panicked
      | OutOfMemory \<Rightarrow> Fatal
      | Made \<Rightarrow>
          (case makechan lib 1 (NumRequests config) of
             OutOfRange \<Rightarrow> Panicked
           | OutOfMemory \<Rightarrow> Fatal
           | Made \<Rightarrow>
               (case createBaseRequest lib config [] of
                  Inl err \<Rightarrow> Exited 1
                | Inr baseReq \<Rightarrow>
                    if Concurrency config <s 2 ^ 31
                    then Ran (run exec (nat (sint (NumRequests config))) sched
                                (start (nat (sint (Concurrency config))) st))
                    else Panicked)))"

text \<open>
  \<^verbatim>\<open>printResults\<close>, lines 284-290: no average is computed when no request was counted;
  Go's integer division truncates towards zero.
\<close>

definition quo :: "int64 \<Rightarrow> int64 \<Rightarrow> int64" where
  "quo a b = word_of_int (sint a sdiv sint b)"

definition avgDuration :: "Stats \<Rightarrow> int64 option" where
  "avgDuration st =
     (if TotalRequests st = 0 then None
      else Some (quo (TotalDuration st) (TotalRequests st)))"

definition bucket_sum :: "(go_int \<times> int64) list \<Rightarrow> int64" where
  "bucket_sum m = sum_list (map snd m)"

section \<open>The connections of the shared transport\<close>

text \<open>
  \<^verbatim>\<open>runLoadTest\<close> makes one client (line 116) and hands it to every worker, so all calls
  of \<^verbatim>\<open>client.Do\<close> go through one \<^verbatim>\<open>http.Transport\<close>. Its accounting of the connections to
  the target host is modelled after \<^verbatim>\<open>net/http\<close> (\<^verbatim>\<open>Transport.getConn\<close>, \<^verbatim>\<open>queueForDial\<close>,
  \<^verbatim>\<open>tryPutIdleConn\<close>, \<^verbatim>\<open>decConnsPerHost\<close>): \<open>conns\<close> is the number of connections that are
  being dialled, in use or idle, \<open>idle_conns\<close> the number of idle ones, and \<open>holding\<close> the
  workers whose call of \<^verbatim>\<open>client.Do\<close> has a connection.
\<close>

record pool =
  conns :: nat
  idle_conns :: nat
  holding :: "nat list"


text \<open>
  A call that needs a connection takes an idle one when there is one. Otherwise it
  dials, unless \<^verbatim>\<open>MaxConnsPerHost\<close> is positive and that many connections exist: then
  it waits (\<open>None\<close>). A value of zero or less means no limit.
\<close>

definition getConn :: "Transport \<Rightarrow> nat \<Rightarrow> pool \<Rightarrow> pool option" where
  "getConn t w p =
     (if 0 < idle_conns p
      then Some (p\<lparr>idle_conns := idle_conns p - 1, holding := w # holding p\<rparr>)
      else if MaxConnsPerHost t \<le>s 0 \<or> int (conns p) < sint (MaxConnsPerHost t)
      then Some (p\<lparr>conns := conns p + 1, holding := w # holding p\<rparr>)
      else None)"

text \<open>
  A connection that is given back is kept idle unless keep-alives are disabled
  (\<^verbatim>\<open>DisableKeepAlives\<close>, or a negative \<^verbatim>\<open>MaxIdleConnsPerHost\<close>) or the host has
  \<^verbatim>\<open>MaxIdleConnsPerHost\<close> idle connections already (two when the field is zero) or the
  transport has \<^verbatim>\<open>MaxIdleConns\<close> of them (no limit when the field is zero); otherwise a
  connection is closed.
\<close>

definition maxIdleConnsPerHost :: "Transport \<Rightarrow> go_int" where
  "maxIdleConnsPerHost t = (if MaxIdleConnsPerHost t \<noteq> 0 then MaxIdleConnsPerHost t else 2)"

definition tryPutIdleConn :: "Transport \<Rightarrow> pool \<Rightarrow> bool" where
  "tryPutIdleConn t p \<longleftrightarrow>
     \<not> DisableKeepAlives t \<and> \<not> MaxIdleConnsPerHost t <s 0 \<and>
     int (idle_conns p) < sint (maxIdleConnsPerHost t) \<and>
     (MaxIdleConns t = 0 \<or> int (idle_conns p) < sint (MaxIdleConns t))"

definition putConn :: "Transport \<Rightarrow> nat \<Rightarrow> pool \<Rightarrow> pool" where
  "putConn t w p =
     (if tryPutIdleConn t p
      then p\<lparr>idle_conns := idle_conns p + 1, holding := removeAll w (holding p)\<rparr>
      else p\<lparr>conns := conns p - 1, holding := removeAll w (holding p)\<rparr>)"

text \<open>
  The run with its connections. Besides the steps of the goroutines there are two
  events of the transport: the call of \<^verbatim>\<open>client.Do\<close> of worker \<open>w\<close> gets a connection, and
  an idle connection is closed (by the idle timeout or by the server). A worker's call
  of \<^verbatim>\<open>client.Do\<close> returns when it has a connection, which it gives back; without one it
  can only return an error (the dial failed, or the timeout ended the wait).
\<close>

datatype event = Thread thread | GetConn nat | CloseIdle

definition in_Do :: "nat \<Rightarrow> state \<Rightarrow> bool" where
  "in_Do w s \<longleftrightarrow> w < length (workers s) \<and> pc (workers s ! w) = ClientDo"

definition conn_step ::
  "executor \<Rightarrow> nat \<Rightarrow> Transport \<Rightarrow> event \<Rightarrow> pool \<times> state \<Rightarrow> pool \<times> state" where
  "conn_step exec n t e ps =
     (case ps of (p, s) \<Rightarrow>
        (case e of
           GetConn w \<Rightarrow>
             if in_Do w s \<and> w \<notin> set (holding p)
             then (case getConn t w p of Some p' \<Rightarrow> (p', s) | None \<Rightarrow> (p, s))
             else (p, s)
         | CloseIdle \<Rightarrow>
             if 0 < idle_conns p
             then (p\<lparr>conns := conns p - 1, idle_conns := idle_conns p - 1\<rparr>, s)
             else (p, s)
         | Thread (Worker w) \<Rightarrow>
             if in_Do w s
             then (if w \<in> set (holding p)
                   then (putConn t w p, sched_step exec n (Worker w) s)
                   else if snd (exec (requestNum (workers s ! w))) = None
                   then (p, sched_step exec n (Worker w) s)
                   else (p, s))
             else (p, sched_step exec n (Worker w) s)
         | Thread th \<Rightarrow> (p, sched_step exec n th s)))"


section \<open>Quantities of the invariants\<close>

text \<open>
  The stage of a program counter orders the operations of one pass of the loop of
  \<^verbatim>\<open>worker\<close>: stages 2 to 9 are those of a worker that has called \<^verbatim>\<open>client.Do\<close> for its
  job and has not sent the result yet.
\<close>

fun stage :: "pc \<Rightarrow> nat" where
  "stage Recv = 0"
| "stage ClientDo = 1"
| "stage AddTotal = 2"
| "stage AddDuration = 3"
| "stage LoadMin = 4"
| "stage (CasMin c) = 4"
| "stage LoadMax = 5"
| "stage (CasMax c) = 5"
| "stage CheckErr = 6"
| "stage (LoadCode c) = 7"
| "stage (StoreCode c l) = 8"
| "stage SendResult = 9"
| "stage Done = 10"

text \<open>The number of job indices the main goroutine has sent, and whether it is still sending.\<close>

definition sent :: "nat \<Rightarrow> state \<Rightarrow> nat" where
  "sent n s = (case main s of SendJobs i \<Rightarrow> i | _ \<Rightarrow> n)"

definition sending :: "state \<Rightarrow> bool" where
  "sending s = (case main s of SendJobs i \<Rightarrow> True | _ \<Rightarrow> False)"

text \<open>
  Where each job index is: in the record of calls, in the channel, or with a worker that
  has received it and not yet called \<^verbatim>\<open>client.Do\<close>.
\<close>

definition at_do :: "worker \<Rightarrow> nat multiset" where
  "at_do k = (if pc k = ClientDo then {#requestNum k#} else {#})"

definition inv_jobs :: "nat \<Rightarrow> state \<Rightarrow> bool" where
  "inv_jobs n s \<longleftrightarrow>
     mset (map snd (calls s)) + mset (jobs s) + sum_list (map at_do (workers s))
       = mset [0..<sent n s]"

text \<open>
  The control state: \<^verbatim>\<open>jobs\<close> is closed once the sending loop is over, the waiting
  goroutine exists from \<open>Progress\<close> on, \<^verbatim>\<open>results\<close> is closed only after every worker is
  done, and a worker is done only when \<^verbatim>\<open>jobs\<close> is closed and empty.
\<close>

definition inv_ctl :: "nat \<Rightarrow> state \<Rightarrow> bool" where
  "inv_ctl n s \<longleftrightarrow>
     sent n s \<le> n \<and>
     (jobs_closed s \<longleftrightarrow> \<not> sending s) \<and>
     (waiting s \<longleftrightarrow> main s = Progress \<or> main s = Returned) \<and>
     (results_closed s \<longrightarrow> waiting s \<and> list_all (\<lambda>k. pc k = Done) (workers s)) \<and>
     (main s = Returned \<longrightarrow> results_closed s \<and> results s = 0) \<and>
     ((\<exists>k \<in> set (workers s). pc k = Done) \<longrightarrow> jobs s = [] \<and> jobs_closed s)"

text \<open>Every call made is a result sent, a result counted, or a worker still at work.\<close>

definition busy :: "worker \<Rightarrow> nat" where
  "busy k = (if 2 \<le> stage (pc k) \<and> stage (pc k) \<le> 9 then 1 else 0)"

definition inv_results :: "state \<Rightarrow> bool" where
  "inv_results s \<longleftrightarrow>
     results s + completed s + sum_list (map busy (workers s)) = length (calls s)"

text \<open>
  What a worker between \<^verbatim>\<open>client.Do\<close> and an addition still owes to a counter. The
  counters plus what is owed equal what the record of calls gives.
\<close>

definition owes_total :: "worker \<Rightarrow> int64" where
  "owes_total k = (if stage (pc k) = 2 then 1 else 0)"

definition owes_duration :: "worker \<Rightarrow> int64" where
  "owes_duration k = (if 2 \<le> stage (pc k) \<and> stage (pc k) \<le> 3 then durationNs k else 0)"

definition owes_success :: "worker \<Rightarrow> int64" where
  "owes_success k =
     (if 2 \<le> stage (pc k) \<and> stage (pc k) \<le> 6 \<and> resp k \<noteq> None then 1 else 0)"

definition owes_failure :: "worker \<Rightarrow> int64" where
  "owes_failure k =
     (if 2 \<le> stage (pc k) \<and> stage (pc k) \<le> 6 \<and> resp k = None then 1 else 0)"

definition responses :: "executor \<Rightarrow> (nat \<times> nat) list \<Rightarrow> (nat \<times> nat) list" where
  "responses exec cs = filter (\<lambda>c. snd (exec (snd c)) \<noteq> None) cs"

definition failures :: "executor \<Rightarrow> (nat \<times> nat) list \<Rightarrow> (nat \<times> nat) list" where
  "failures exec cs = filter (\<lambda>c. snd (exec (snd c)) = None) cs"

definition durations :: "executor \<Rightarrow> (nat \<times> nat) list \<Rightarrow> int64 list" where
  "durations exec cs = map (\<lambda>c. fst (exec (snd c))) cs"

definition inv_total :: "Stats \<Rightarrow> state \<Rightarrow> bool" where
  "inv_total st0 s \<longleftrightarrow>
     TotalRequests (stats s) + sum_list (map owes_total (workers s))
       = TotalRequests st0 + of_nat (length (calls s))"

definition inv_duration :: "executor \<Rightarrow> Stats \<Rightarrow> state \<Rightarrow> bool" where
  "inv_duration exec st0 s \<longleftrightarrow>
     TotalDuration (stats s) + sum_list (map owes_duration (workers s))
       = TotalDuration st0 + sum_list (durations exec (calls s))"

definition inv_success :: "executor \<Rightarrow> Stats \<Rightarrow> state \<Rightarrow> bool" where
  "inv_success exec st0 s \<longleftrightarrow>
     SuccessfulRequests (stats s) + sum_list (map owes_success (workers s))
       = SuccessfulRequests st0 + of_nat (length (responses exec (calls s)))"

definition inv_failure :: "executor \<Rightarrow> Stats \<Rightarrow> state \<Rightarrow> bool" where
  "inv_failure exec st0 s \<longleftrightarrow>
     FailedRequests (stats s) + sum_list (map owes_failure (workers s))
       = FailedRequests st0 + of_nat (length (failures exec (calls s)))"

text \<open>
  The local variables of a worker past \<^verbatim>\<open>client.Do\<close> are those of a recorded call, and a
  compare-and-swap is attempted only after the comparison of line 236 or 247 succeeded.
\<close>

definition linv :: "executor \<Rightarrow> state \<Rightarrow> worker \<Rightarrow> bool" where
  "linv exec s k \<longleftrightarrow>
     (2 \<le> stage (pc k) \<and> stage (pc k) \<le> 9 \<longrightarrow>
        requestNum k \<in> set (map snd (calls s)) \<and>
        durationNs k = fst (exec (requestNum k)) \<and>
        resp k = snd (exec (requestNum k))) \<and>
     (case pc k of
        CasMin cur \<Rightarrow> durationNs k <s cur
      | CasMax cur \<Rightarrow> cur <s durationNs k
      | LoadCode code \<Rightarrow> resp k = Some code
      | StoreCode code l \<Rightarrow> resp k = Some code
      | _ \<Rightarrow> True)"

definition inv_local :: "executor \<Rightarrow> state \<Rightarrow> bool" where
  "inv_local exec s \<longleftrightarrow> (\<forall>k \<in> set (workers s). linv exec s k)"

text \<open>
  The minimum is the initial value or a recorded duration, and it is at most the duration
  of every call whose worker has left the first loop (stages 2 to 4 are before or in it).
  The maximum likewise, with stages 2 to 5.
\<close>

definition inv_min :: "executor \<Rightarrow> Stats \<Rightarrow> state \<Rightarrow> bool" where
  "inv_min exec st0 s \<longleftrightarrow>
     MinDuration (stats s) \<in> insert (MinDuration st0) (set (durations exec (calls s))) \<and>
     (\<forall>c \<in> set (calls s).
        (\<exists>i < length (workers s). 2 \<le> stage (pc (workers s ! i)) \<and>
            stage (pc (workers s ! i)) \<le> 4 \<and> requestNum (workers s ! i) = snd c) \<or>
        MinDuration (stats s) \<le>s fst (exec (snd c)))"

definition inv_max :: "executor \<Rightarrow> Stats \<Rightarrow> state \<Rightarrow> bool" where
  "inv_max exec st0 s \<longleftrightarrow>
     MaxDuration (stats s) \<in> insert (MaxDuration st0) (set (durations exec (calls s))) \<and>
     (\<forall>c \<in> set (calls s).
        (\<exists>i < length (workers s). 2 \<le> stage (pc (workers s ! i)) \<and>
            stage (pc (workers s ! i)) \<le> 5 \<and> requestNum (workers s ! i) = snd c) \<or>
        fst (exec (snd c)) \<le>s MaxDuration (stats s))"

text \<open>The minimum never rises and the maximum never falls.\<close>

definition inv_mono :: "Stats \<Rightarrow> state \<Rightarrow> bool" where
  "inv_mono st0 s \<longleftrightarrow>
     MinDuration (stats s) \<le>s MinDuration st0 \<and> MaxDuration st0 \<le>s MaxDuration (stats s)"

text \<open>Every recorded call was made by a worker of the pool.\<close>

definition inv_ids :: "state \<Rightarrow> bool" where
  "inv_ids s \<longleftrightarrow> (\<forall>c \<in> set (calls s). fst c < length (workers s))"

text \<open>Every key of the histogram is the status code of a response received.\<close>

definition inv_codes :: "executor \<Rightarrow> Stats \<Rightarrow> state \<Rightarrow> bool" where
  "inv_codes exec st0 s \<longleftrightarrow>
     (\<forall>code \<in> set (map fst (StatusCodes (stats s))).
        code \<in> set (map fst (StatusCodes st0)) \<or>
        (\<exists>c \<in> set (calls s). snd (exec (snd c)) = Some code))"

text \<open>
  With a single worker nothing comes between the \<^verbatim>\<open>Load\<close> of a bucket and its
  \<^verbatim>\<open>Store\<close>: the value loaded is still the value of the bucket, and the buckets plus
  what the worker owes sum to the number of responses.
\<close>

definition owes_bucket :: "worker \<Rightarrow> int64" where
  "owes_bucket k =
     (if 2 \<le> stage (pc k) \<and> stage (pc k) \<le> 8 \<and> resp k \<noteq> None then 1 else 0)"

definition fresh :: "Stats \<Rightarrow> worker \<Rightarrow> bool" where
  "fresh st k \<longleftrightarrow>
     (case pc k of
        StoreCode code loaded \<Rightarrow> loaded = Load (StatusCodes st) code
      | _ \<Rightarrow> True)"

definition inv_single :: "executor \<Rightarrow> Stats \<Rightarrow> state \<Rightarrow> bool" where
  "inv_single exec st0 s \<longleftrightarrow>
     (length (workers s) = 1 \<longrightarrow>
        fresh (stats s) (workers s ! 0) \<and>
        bucket_sum (StatusCodes (stats s)) + owes_bucket (workers s ! 0)
          = bucket_sum (StatusCodes st0) + of_nat (length (responses exec (calls s))))"

text \<open>The invariant of the pool: all of the above but the single-worker part.\<close>

definition Inv :: "executor \<Rightarrow> nat \<Rightarrow> Stats \<Rightarrow> state \<Rightarrow> bool" where
  "Inv exec n st0 s \<longleftrightarrow>
     inv_jobs n s \<and> inv_ctl n s \<and> inv_results s \<and> inv_total st0 s \<and>
     inv_duration exec st0 s \<and> inv_success exec st0 s \<and> inv_failure exec st0 s \<and>
     inv_local exec s \<and> inv_min exec st0 s \<and> inv_max exec st0 s \<and> inv_mono st0 s \<and>
     inv_ids s \<and> inv_codes exec st0 s"


section \<open>A bound on the number of steps\<close>

text \<open>
  A potential that every step lowers. A successful compare-and-swap can make the pending
  compare-and-swap of every other worker fail once, which costs each of them two more
  steps; so a worker in a loop holds two units for each of the \<open>c\<close> workers. A job index
  in the channel holds what a worker needs to process it.
\<close>

definition job_cost :: "nat \<Rightarrow> nat" where "job_cost c = 13 + 4 * c"

definition worker_potential :: "nat \<Rightarrow> Stats \<Rightarrow> worker \<Rightarrow> nat" where
  "worker_potential c st k =
     (case pc k of
        Recv \<Rightarrow> 1
      | ClientDo \<Rightarrow> 13 + 4 * c
      | AddTotal \<Rightarrow> 12 + 4 * c
      | AddDuration \<Rightarrow> 11 + 4 * c
      | LoadMin \<Rightarrow> 10 + 4 * c
      | CasMin cur \<Rightarrow> (if MinDuration st = cur then 9 + 4 * c else 11 + 4 * c)
      | LoadMax \<Rightarrow> 8 + 2 * c
      | CasMax cur \<Rightarrow> (if MaxDuration st = cur then 7 + 2 * c else 9 + 2 * c)
      | CheckErr \<Rightarrow> 6
      | LoadCode code \<Rightarrow> 5
      | StoreCode code l \<Rightarrow> 4
      | SendResult \<Rightarrow> 3
      | Done \<Rightarrow> 0)"

definition shared_potential :: "nat \<Rightarrow> nat \<Rightarrow> state \<Rightarrow> nat" where
  "shared_potential n c s =
     (case main s of
        SendJobs i \<Rightarrow> (n - i) * (job_cost c + 1) + 3
      | GoWait \<Rightarrow> 2
      | Progress \<Rightarrow> 1
      | Returned \<Rightarrow> 0)
     + (if results_closed s then 0 else 1) + results s + job_cost c * length (jobs s)"

definition potential :: "nat \<Rightarrow> state \<Rightarrow> nat" where
  "potential n s =
     shared_potential n (length (workers s)) s
       + sum_list (map (worker_potential (length (workers s)) (stats s)) (workers s))"

text \<open>The number of steps of a schedule that are not blocked.\<close>

primrec taken :: "executor \<Rightarrow> nat \<Rightarrow> thread list \<Rightarrow> state \<Rightarrow> nat" where
  "taken exec n [] s = 0"
| "taken exec n (t # ts) s =
     (case step exec n t s of
        None \<Rightarrow> taken exec n ts s
      | Some s' \<Rightarrow> Suc (taken exec n ts s'))"

section \<open>Concrete runs\<close>

text \<open>
  A standard library that accepts every method and URL and one that rejects them all,
  both with the constants of a 64-bit platform and an allocator that gives up to 8 GiB;
  configurations; executors; schedules. \<open>lockstep\<close> alternates two workers, \<open>solo\<close> runs
  one worker alone, \<open>rounds\<close> goes round all goroutines, \<open>no_workers\<close> is a run of the main
  and the waiting goroutine only.
\<close>

definition permissive :: stdlib where
  "permissive = \<lparr>rejects = (\<lambda>method url. False), CanonicalMIMEHeaderKey = (\<lambda>key. key),
     TrimSpace = (\<lambda>s. s), maxAlloc = 2 ^ 48, hchanSize = 104,
     mallocgc = (\<lambda>bytes. bytes \<le> 2 ^ 33)\<rparr>"

definition strict :: stdlib where
  "strict = \<lparr>rejects = (\<lambda>method url. True), CanonicalMIMEHeaderKey = (\<lambda>key. key),
     TrimSpace = (\<lambda>s. s), maxAlloc = 2 ^ 48, hchanSize = 104,
     mallocgc = (\<lambda>bytes. bytes \<le> 2 ^ 33)\<rparr>"

definition sample_config :: "go_int \<Rightarrow> go_int \<Rightarrow> Config" where
  "sample_config n c = \<lparr>URL = ''http://localhost:3000/api/users'', NumRequests = n,
     Concurrency = c, Timeout = 30, Method = ''GET'', Body = [], Headers = [],
     KeepAlive = True\<rparr>"

definition always :: "int64 \<Rightarrow> go_int option \<Rightarrow> executor" where
  "always d r j = (d, r)"

definition lockstep :: "thread list" where
  "lockstep = [Main, Main, Main, Main] @ concat (replicate 14 [Worker 0, Worker 1])
     @ [Waiter, Main, Main, Main]"

definition no_workers :: "thread list" where
  "no_workers = [Main, Main, Main, Waiter, Main]"

definition rounds :: "nat \<Rightarrow> thread list" where
  "rounds m = concat (replicate m [Main, Worker 0, Worker 1, Waiter])"

definition four_durations :: executor where
  "four_durations j =
     ((if j = 0 then 10 * Millisecond else if j = 1 then 50 * Millisecond
       else if j = 2 then 5 * Millisecond else 100 * Millisecond), Some 200)"

definition solo :: "nat \<Rightarrow> thread list" where
  "solo m = replicate 4 Main @ replicate m (Worker 0) @ [Waiter] @ replicate 4 Main"

definition patient_config :: Config where
  "patient_config = \<lparr>URL = ''http://localhost:3000/api/users'', NumRequests = 1,
     Concurrency = 1, Timeout = 10800, Method = ''GET'', Body = [], Headers = [],
     KeepAlive = True\<rparr>"

text \<open>
  \<^verbatim>\<open>loadtest -n 4 -c 2 -k=false -m POST -d '{}' http://localhost:3000/api/users\<close>.
\<close>

definition post_config :: Config where
  "post_config = \<lparr>URL = ''http://localhost:3000/api/users'', NumRequests = 4,
     Concurrency = 2, Timeout = 30, Method = ''POST'', Body = ''{}'', Headers = [],
     KeepAlive = False\<rparr>"


section \<open>Sums over the workers\<close>

lemma sum_list_map_update:
  fixes f :: "'a \<Rightarrow> 'b::comm_monoid_add"
  shows "i < length xs \<Longrightarrow> sum_list (map f (xs[i := x])) + f (xs ! i) = sum_list (map f xs) + f x"
proof (induction xs arbitrary: i)
  case Nil
  then show ?case by simp
next
  case (Cons y ys)
  show ?case
  proof (cases i)
    case 0
    then show ?thesis by (simp add: ac_simps)
  next
    case (Suc j)
    with Cons.prems have "j < length ys" by simp
    from Cons.IH [OF this] Suc show ?thesis by (simp add: add.assoc)
  qed
qed

lemma ledger_step:
  fixes G :: "'b::cancel_comm_monoid_add"
  assumes "G + S = H" and "S' + a = S + a'" and "G' + a' + H = G + a + H'"
  shows "G' + S' = H'"
proof -
  have "(G' + S') + (a + G) = G' + (S' + a) + G" by (simp add: ac_simps)
  also have "\<dots> = (G' + a') + (G + S)" using assms(2) by (simp add: ac_simps)
  also have "\<dots> = G + a + H'" using assms(1,3) by simp
  also have "\<dots> = H' + (a + G)" by (simp add: ac_simps)
  finally show ?thesis by simp
qed

section \<open>The operations of a worker, case by case\<close>

lemma worker_stepE:
  assumes "worker_step exec n w s = Some s'"
  obtains k' s1 where "w < length (workers s)"
    and "worker_op exec n w (workers s ! w) s = Some (k', s1)"
    and "s' = s1\<lparr>workers := (workers s)[w := k']\<rparr>"
  using assms by (auto simp: worker_step_def split: if_splits option.splits)

lemma worker_op_workers:
  "worker_op exec n w k s = Some (k', s1) \<Longrightarrow> workers s1 = workers s"
  by (auto simp: worker_op_def split: pc.splits list.splits if_splits)

lemma ledger_worker_step:
  fixes G H :: "state \<Rightarrow> 'b::cancel_comm_monoid_add" and f :: "worker \<Rightarrow> 'b"
  assumes step: "worker_step exec n w s = Some s'"
    and inv: "G s + sum_list (map f (workers s)) = H s"
    and frameG: "\<And>s1 ws. G (s1\<lparr>workers := ws\<rparr>) = G s1"
    and frameH: "\<And>s1 ws. H (s1\<lparr>workers := ws\<rparr>) = H s1"
    and loc: "\<And>k' s1. worker_op exec n w (workers s ! w) s = Some (k', s1) \<Longrightarrow>
                G s1 + f k' + H s = G s + f (workers s ! w) + H s1"
  shows "G s' + sum_list (map f (workers s')) = H s'"
proof -
  from step obtain k' s1 where w: "w < length (workers s)"
    and op: "worker_op exec n w (workers s ! w) s = Some (k', s1)"
    and s': "s' = s1\<lparr>workers := (workers s)[w := k']\<rparr>"
    by (rule worker_stepE)
  have upd: "sum_list (map f ((workers s)[w := k'])) + f (workers s ! w)
      = sum_list (map f (workers s)) + f k'"
    by (rule sum_list_map_update [OF w])
  have "G s1 + sum_list (map f ((workers s)[w := k'])) = H s1"
    by (rule ledger_step [OF inv upd loc [OF op]])
  then show ?thesis by (simp add: s' frameG frameH)
qed

section \<open>The invariants hold along every schedule\<close>

lemma inv_jobs_worker:
  assumes "worker_step exec n w s = Some s'" and "inv_jobs n s"
  shows "inv_jobs n s'"
proof -
  have "mset (map snd (calls s')) + mset (jobs s') + sum_list (map at_do (workers s'))
      = mset [0..<sent n s']"
  proof (rule ledger_worker_step [OF assms(1),
        where G = "\<lambda>s. mset (map snd (calls s)) + mset (jobs s)" and f = at_do
          and H = "\<lambda>s. mset [0..<sent n s]"])
    show "mset (map snd (calls s)) + mset (jobs s) + sum_list (map at_do (workers s))
      = mset [0..<sent n s]"
      using assms(2) by (simp add: inv_jobs_def)
  next
    fix k' s1
    assume "worker_op exec n w (workers s ! w) s = Some (k', s1)"
    then show "mset (map snd (calls s1)) + mset (jobs s1) + at_do k' + mset [0..<sent n s]
      = mset (map snd (calls s)) + mset (jobs s) + at_do (workers s ! w) + mset [0..<sent n s1]"
      by (auto simp: worker_op_def sendRequest_step_def at_do_def sent_def
          split: pc.splits list.splits if_splits option.splits)
  qed (simp_all add: sent_def)
  then show ?thesis by (simp add: inv_jobs_def)
qed

lemma mset_set_upt_Suc: "add_mset i (mset_set {0..<i}) = mset_set {0..<Suc i}"
  by (simp add: atLeastLessThanSuc)

lemma inv_jobs_main:
  assumes "main_step n s = Some s'" and "inv_jobs n s" and "sent n s \<le> n"
  shows "inv_jobs n s'"
  using assms
  by (auto simp: main_step_def inv_jobs_def sent_def mset_set_upt_Suc
      split: main_pc.splits if_splits)

lemma inv_jobs_waiter:
  assumes "waiter_step s = Some s'" and "inv_jobs n s"
  shows "inv_jobs n s'"
  using assms by (auto simp: waiter_step_def inv_jobs_def sent_def split: if_splits)

lemma inv_ctl_main:
  assumes "main_step n s = Some s'" and "inv_ctl n s"
  shows "inv_ctl n s'"
  using assms
  by (auto simp: main_step_def inv_ctl_def sent_def sending_def split: main_pc.splits if_splits)

lemma inv_ctl_waiter:
  assumes "waiter_step s = Some s'" and "inv_ctl n s"
  shows "inv_ctl n s'"
  using assms
  by (auto simp: waiter_step_def inv_ctl_def sent_def sending_def split: if_splits)

lemma worker_op_Done_None: "pc k = Done \<Longrightarrow> worker_op exec n w k s = None"
  by (simp add: worker_op_def)

lemma worker_op_frame:
  assumes "worker_op exec n w k s = Some (k', s1)"
  shows "main s1 = main s" and "jobs_closed s1 = jobs_closed s" and "waiting s1 = waiting s"
    and "results_closed s1 = results_closed s" and "completed s1 = completed s"
    and "workers s1 = workers s"
  using assms
  by (auto simp: worker_op_def split: pc.splits list.splits if_splits)

lemma worker_op_to_Done:
  assumes "worker_op exec n w k s = Some (k', s1)" and "pc k' = Done"
  shows "pc k = Recv \<and> jobs s = [] \<and> jobs_closed s \<and> s1 = s"
  using assms
  by (auto simp: worker_op_def sendRequest_step_def split: pc.splits list.splits if_splits option.splits)

lemma worker_op_jobs:
  assumes "worker_op exec n w k s = Some (k', s1)" and "jobs s = []"
  shows "jobs s1 = []"
  using assms
  by (auto simp: worker_op_def split: pc.splits list.splits if_splits)

lemma inv_ctl_worker:
  assumes step: "worker_step exec n w s = Some s'" and inv: "inv_ctl n s"
  shows "inv_ctl n s'"
proof -
  from step obtain k' s1 where w: "w < length (workers s)"
    and op: "worker_op exec n w (workers s ! w) s = Some (k', s1)"
    and s': "s' = s1\<lparr>workers := (workers s)[w := k']\<rparr>"
    by (rule worker_stepE)
  note fr = worker_op_frame [OF op]
  have notDone: "pc (workers s ! w) \<noteq> Done"
    using op worker_op_Done_None by fastforce
  have open_res: "\<not> results_closed s"
  proof
    assume "results_closed s"
    with inv have "list_all (\<lambda>k. pc k = Done) (workers s)" by (simp add: inv_ctl_def)
    with w have "pc (workers s ! w) = Done" by (simp add: list_all_length)
    with notDone show False by simp
  qed
  have main_eq: "main s' = main s" "sent n s' = sent n s" "sending s' = sending s"
    "jobs_closed s' = jobs_closed s" "waiting s' = waiting s"
    "results_closed s' = results_closed s"
    by (simp_all add: s' fr sent_def sending_def)
  have done_jobs: "jobs s' = [] \<and> jobs_closed s'" if k: "k \<in> set (workers s')" "pc k = Done" for k
  proof -
    from k(1) have "k = k' \<or> k \<in> set (workers s)"
      using set_update_subset_insert [of "workers s" w k'] by (auto simp: s')
    then show ?thesis
    proof
      assume "k = k'"
      with k(2) op have "jobs s = [] \<and> jobs_closed s \<and> s1 = s"
        using worker_op_to_Done by blast
      then show ?thesis by (simp add: s')
    next
      assume "k \<in> set (workers s)"
      with k(2) inv have "jobs s = [] \<and> jobs_closed s" by (auto simp: inv_ctl_def)
      with op fr show ?thesis by (simp add: s' worker_op_jobs)
    qed
  qed
  show ?thesis
    unfolding inv_ctl_def
  proof (intro conjI impI)
    show "sent n s' \<le> n" using inv by (simp add: main_eq inv_ctl_def)
    show "jobs_closed s' = (\<not> sending s')" using inv by (simp add: main_eq inv_ctl_def)
    show "waiting s' = (main s' = Progress \<or> main s' = Returned)"
      using inv by (simp add: main_eq inv_ctl_def)
    show "waiting s'" if "results_closed s'"
      using that open_res by (simp add: main_eq)
    show "list_all (\<lambda>k. pc k = Done) (workers s')" if "results_closed s'"
      using that open_res by (simp add: main_eq)
    show "results_closed s'" if "main s' = Returned"
      using that inv open_res by (simp add: main_eq inv_ctl_def)
    show "results s' = 0" if "main s' = Returned"
      using that inv open_res by (simp add: main_eq inv_ctl_def)
    show "jobs s' = []" if "\<exists>k\<in>set (workers s'). pc k = Done"
      using that done_jobs by blast
    show "jobs_closed s'" if "\<exists>k\<in>set (workers s'). pc k = Done"
      using that done_jobs by blast
  qed
qed

lemma inv_results_worker:
  assumes "worker_step exec n w s = Some s'" and "inv_results s"
  shows "inv_results s'"
proof -
  have "results s' + completed s' + sum_list (map busy (workers s')) = length (calls s')"
  proof (rule ledger_worker_step [OF assms(1),
        where G = "\<lambda>s. results s + completed s" and f = busy and H = "\<lambda>s. length (calls s)"])
    show "results s + completed s + sum_list (map busy (workers s)) = length (calls s)"
      using assms(2) by (simp add: inv_results_def)
  next
    fix k' s1
    assume "worker_op exec n w (workers s ! w) s = Some (k', s1)"
    then show "results s1 + completed s1 + busy k' + length (calls s)
      = results s + completed s + busy (workers s ! w) + length (calls s1)"
      by (auto simp: worker_op_def sendRequest_step_def busy_def
          split: pc.splits list.splits if_splits option.splits)
  qed simp_all
  then show ?thesis by (simp add: inv_results_def)
qed

lemma inv_results_main:
  assumes "main_step n s = Some s'" and "inv_results s"
  shows "inv_results s'"
  using assms
  by (auto simp: main_step_def inv_results_def split: main_pc.splits if_splits)

lemma inv_results_waiter:
  assumes "waiter_step s = Some s'" and "inv_results s"
  shows "inv_results s'"
  using assms by (auto simp: waiter_step_def inv_results_def split: if_splits)

lemma inv_total_worker:
  assumes "worker_step exec n w s = Some s'" and "inv_total st0 s"
  shows "inv_total st0 s'"
proof -
  have "TotalRequests (stats s') + sum_list (map owes_total (workers s'))
      = TotalRequests st0 + of_nat (length (calls s'))"
  proof (rule ledger_worker_step [OF assms(1),
        where G = "\<lambda>s. TotalRequests (stats s)" and f = owes_total
          and H = "\<lambda>s. TotalRequests st0 + of_nat (length (calls s))"])
    show "TotalRequests (stats s) + sum_list (map owes_total (workers s))
      = TotalRequests st0 + of_nat (length (calls s))"
      using assms(2) by (simp add: inv_total_def)
  next
    fix k' s1
    assume "worker_op exec n w (workers s ! w) s = Some (k', s1)"
    then show "TotalRequests (stats s1) + owes_total k'
        + (TotalRequests st0 + of_nat (length (calls s)))
      = TotalRequests (stats s) + owes_total (workers s ! w)
        + (TotalRequests st0 + of_nat (length (calls s1)))"
      by (auto simp: worker_op_def sendRequest_step_def owes_total_def
          split: pc.splits list.splits if_splits option.splits)
  qed simp_all
  then show ?thesis by (simp add: inv_total_def)
qed

lemma inv_duration_worker:
  assumes "worker_step exec n w s = Some s'" and "inv_duration exec st0 s"
  shows "inv_duration exec st0 s'"
proof -
  have "TotalDuration (stats s') + sum_list (map owes_duration (workers s'))
      = TotalDuration st0 + sum_list (durations exec (calls s'))"
  proof (rule ledger_worker_step [OF assms(1),
        where G = "\<lambda>s. TotalDuration (stats s)" and f = owes_duration
          and H = "\<lambda>s. TotalDuration st0 + sum_list (durations exec (calls s))"])
    show "TotalDuration (stats s) + sum_list (map owes_duration (workers s))
      = TotalDuration st0 + sum_list (durations exec (calls s))"
      using assms(2) by (simp add: inv_duration_def)
  next
    fix k' s1
    assume "worker_op exec n w (workers s ! w) s = Some (k', s1)"
    then show "TotalDuration (stats s1) + owes_duration k'
        + (TotalDuration st0 + sum_list (durations exec (calls s)))
      = TotalDuration (stats s) + owes_duration (workers s ! w)
        + (TotalDuration st0 + sum_list (durations exec (calls s1)))"
      by (auto simp: worker_op_def sendRequest_step_def owes_duration_def durations_def
          split: pc.splits list.splits if_splits option.splits)
  qed simp_all
  then show ?thesis by (simp add: inv_duration_def)
qed

lemma inv_success_worker:
  assumes "worker_step exec n w s = Some s'" and "inv_success exec st0 s"
  shows "inv_success exec st0 s'"
proof -
  have "SuccessfulRequests (stats s') + sum_list (map owes_success (workers s'))
      = SuccessfulRequests st0 + of_nat (length (responses exec (calls s')))"
  proof (rule ledger_worker_step [OF assms(1),
        where G = "\<lambda>s. SuccessfulRequests (stats s)" and f = owes_success
          and H = "\<lambda>s. SuccessfulRequests st0 + of_nat (length (responses exec (calls s)))"])
    show "SuccessfulRequests (stats s) + sum_list (map owes_success (workers s))
      = SuccessfulRequests st0 + of_nat (length (responses exec (calls s)))"
      using assms(2) by (simp add: inv_success_def)
  next
    fix k' s1
    assume "worker_op exec n w (workers s ! w) s = Some (k', s1)"
    then show "SuccessfulRequests (stats s1) + owes_success k'
        + (SuccessfulRequests st0 + of_nat (length (responses exec (calls s))))
      = SuccessfulRequests (stats s) + owes_success (workers s ! w)
        + (SuccessfulRequests st0 + of_nat (length (responses exec (calls s1))))"
      by (auto simp: worker_op_def sendRequest_step_def owes_success_def responses_def
          split: pc.splits list.splits if_splits option.splits)
  qed simp_all
  then show ?thesis by (simp add: inv_success_def)
qed

lemma inv_failure_worker:
  assumes "worker_step exec n w s = Some s'" and "inv_failure exec st0 s"
  shows "inv_failure exec st0 s'"
proof -
  have "FailedRequests (stats s') + sum_list (map owes_failure (workers s'))
      = FailedRequests st0 + of_nat (length (failures exec (calls s')))"
  proof (rule ledger_worker_step [OF assms(1),
        where G = "\<lambda>s. FailedRequests (stats s)" and f = owes_failure
          and H = "\<lambda>s. FailedRequests st0 + of_nat (length (failures exec (calls s)))"])
    show "FailedRequests (stats s) + sum_list (map owes_failure (workers s))
      = FailedRequests st0 + of_nat (length (failures exec (calls s)))"
      using assms(2) by (simp add: inv_failure_def)
  next
    fix k' s1
    assume "worker_op exec n w (workers s ! w) s = Some (k', s1)"
    then show "FailedRequests (stats s1) + owes_failure k'
        + (FailedRequests st0 + of_nat (length (failures exec (calls s))))
      = FailedRequests (stats s) + owes_failure (workers s ! w)
        + (FailedRequests st0 + of_nat (length (failures exec (calls s1))))"
      by (auto simp: worker_op_def sendRequest_step_def owes_failure_def failures_def
          split: pc.splits list.splits if_splits option.splits)
  qed simp_all
  then show ?thesis by (simp add: inv_failure_def)
qed

lemma main_step_frame:
  assumes "main_step n s = Some s'"
  shows "stats s' = stats s" and "workers s' = workers s" and "calls s' = calls s"
  using assms by (auto simp: main_step_def split: main_pc.splits if_splits)

lemma waiter_step_frame:
  assumes "waiter_step s = Some s'"
  shows "stats s' = stats s" and "workers s' = workers s" and "calls s' = calls s"
  using assms by (auto simp: waiter_step_def split: if_splits)

lemma worker_op_cases [consumes 1, case_names recv exit call add_total add_duration
    load_min_lt load_min_ge cas_min_ok cas_min_fail load_max_gt load_max_le cas_max_ok
    cas_max_fail failed succeeded load_code store_code send_result]:
  assumes "worker_op exec n w k s = Some (k', s1)"
  obtains
    (recv) j js where "pc k = Recv" "jobs s = j # js"
      "k' = k\<lparr>pc := ClientDo, requestNum := j\<rparr>" "s1 = s\<lparr>jobs := js\<rparr>"
  | (exit) "pc k = Recv" "jobs s = []" "jobs_closed s" "k' = k\<lparr>pc := Done\<rparr>" "s1 = s"
  | (call) "pc k = ClientDo"
      "k' = k\<lparr>pc := AddTotal, durationNs := fst (exec (requestNum k)),
          resp := snd (exec (requestNum k))\<rparr>"
      "s1 = s\<lparr>calls := calls s @ [(w, requestNum k)]\<rparr>"
  | (add_total) "pc k = AddTotal" "k' = k\<lparr>pc := AddDuration\<rparr>"
      "s1 = s\<lparr>stats := (stats s)\<lparr>TotalRequests := TotalRequests (stats s) + 1\<rparr>\<rparr>"
  | (add_duration) "pc k = AddDuration" "k' = k\<lparr>pc := LoadMin\<rparr>"
      "s1 = s\<lparr>stats := (stats s)\<lparr>TotalDuration := TotalDuration (stats s) + durationNs k\<rparr>\<rparr>"
  | (load_min_lt) "pc k = LoadMin" "durationNs k <s MinDuration (stats s)"
      "k' = k\<lparr>pc := CasMin (MinDuration (stats s))\<rparr>" "s1 = s"
  | (load_min_ge) "pc k = LoadMin" "\<not> durationNs k <s MinDuration (stats s)"
      "k' = k\<lparr>pc := LoadMax\<rparr>" "s1 = s"
  | (cas_min_ok) "pc k = CasMin (MinDuration (stats s))" "k' = k\<lparr>pc := LoadMax\<rparr>"
      "s1 = s\<lparr>stats := (stats s)\<lparr>MinDuration := durationNs k\<rparr>\<rparr>"
  | (cas_min_fail) cur where "pc k = CasMin cur" "MinDuration (stats s) \<noteq> cur"
      "k' = k\<lparr>pc := LoadMin\<rparr>" "s1 = s"
  | (load_max_gt) "pc k = LoadMax" "MaxDuration (stats s) <s durationNs k"
      "k' = k\<lparr>pc := CasMax (MaxDuration (stats s))\<rparr>" "s1 = s"
  | (load_max_le) "pc k = LoadMax" "\<not> MaxDuration (stats s) <s durationNs k"
      "k' = k\<lparr>pc := CheckErr\<rparr>" "s1 = s"
  | (cas_max_ok) "pc k = CasMax (MaxDuration (stats s))" "k' = k\<lparr>pc := CheckErr\<rparr>"
      "s1 = s\<lparr>stats := (stats s)\<lparr>MaxDuration := durationNs k\<rparr>\<rparr>"
  | (cas_max_fail) cur where "pc k = CasMax cur" "MaxDuration (stats s) \<noteq> cur"
      "k' = k\<lparr>pc := LoadMax\<rparr>" "s1 = s"
  | (failed) "pc k = CheckErr" "resp k = None" "k' = k\<lparr>pc := SendResult\<rparr>"
      "s1 = s\<lparr>stats := (stats s)\<lparr>FailedRequests := FailedRequests (stats s) + 1\<rparr>\<rparr>"
  | (succeeded) code where "pc k = CheckErr" "resp k = Some code" "k' = k\<lparr>pc := LoadCode code\<rparr>"
      "s1 = s\<lparr>stats := (stats s)\<lparr>SuccessfulRequests := SuccessfulRequests (stats s) + 1\<rparr>\<rparr>"
  | (load_code) code where "pc k = LoadCode code"
      "k' = k\<lparr>pc := StoreCode code (Load (StatusCodes (stats s)) code)\<rparr>" "s1 = s"
  | (store_code) code loaded where "pc k = StoreCode code loaded" "k' = k\<lparr>pc := SendResult\<rparr>"
      "s1 = s\<lparr>stats := (stats s)\<lparr>StatusCodes :=
          Store (StatusCodes (stats s)) code (case loaded of None \<Rightarrow> 1 | Some cnt \<Rightarrow> cnt + 1)\<rparr>\<rparr>"
  | (send_result) "pc k = SendResult" "results s < n" "k' = k\<lparr>pc := Recv\<rparr>"
      "s1 = s\<lparr>results := Suc (results s)\<rparr>"
proof (cases "pc k")
  case Recv
  show ?thesis
  proof (cases "jobs s")
    case Nil
    with assms Recv have "jobs_closed s" "k' = k\<lparr>pc := Done\<rparr>" "s1 = s"
      by (auto simp: worker_op_def split: if_splits)
    with Recv Nil show ?thesis by (rule exit)
  next
    case (Cons j js)
    with assms Recv have "k' = k\<lparr>pc := ClientDo, requestNum := j\<rparr>" "s1 = s\<lparr>jobs := js\<rparr>"
      by (auto simp: worker_op_def)
    with Recv Cons show ?thesis by (rule recv)
  qed
next
  case ClientDo
  with assms have "k' = k\<lparr>pc := AddTotal, durationNs := fst (exec (requestNum k)),
          resp := snd (exec (requestNum k))\<rparr>" "s1 = s\<lparr>calls := calls s @ [(w, requestNum k)]\<rparr>"
    by (auto simp: worker_op_def sendRequest_step_def)
  with ClientDo show ?thesis by (rule call)
next
  case AddTotal
  with assms have "k' = k\<lparr>pc := AddDuration\<rparr>"
    "s1 = s\<lparr>stats := (stats s)\<lparr>TotalRequests := TotalRequests (stats s) + 1\<rparr>\<rparr>"
    by (auto simp: worker_op_def sendRequest_step_def)
  with AddTotal show ?thesis by (rule add_total)
next
  case AddDuration
  with assms have "k' = k\<lparr>pc := LoadMin\<rparr>"
    "s1 = s\<lparr>stats := (stats s)\<lparr>TotalDuration := TotalDuration (stats s) + durationNs k\<rparr>\<rparr>"
    by (auto simp: worker_op_def sendRequest_step_def)
  with AddDuration show ?thesis by (rule add_duration)
next
  case LoadMin
  show ?thesis
  proof (cases "durationNs k <s MinDuration (stats s)")
    case True
    with assms LoadMin have "k' = k\<lparr>pc := CasMin (MinDuration (stats s))\<rparr>" "s1 = s"
      by (auto simp: worker_op_def sendRequest_step_def)
    with LoadMin True show ?thesis by (rule load_min_lt)
  next
    case False
    with assms LoadMin have "k' = k\<lparr>pc := LoadMax\<rparr>" "s1 = s"
      by (auto simp: worker_op_def sendRequest_step_def)
    with LoadMin False show ?thesis by (rule load_min_ge)
  qed
next
  case (CasMin cur)
  show ?thesis
  proof (cases "MinDuration (stats s) = cur")
    case True
    with assms CasMin have "k' = k\<lparr>pc := LoadMax\<rparr>"
      "s1 = s\<lparr>stats := (stats s)\<lparr>MinDuration := durationNs k\<rparr>\<rparr>"
      by (auto simp: worker_op_def sendRequest_step_def)
    moreover from CasMin True have "pc k = CasMin (MinDuration (stats s))" by simp
    ultimately show ?thesis using cas_min_ok by blast
  next
    case False
    with assms CasMin have "k' = k\<lparr>pc := LoadMin\<rparr>" "s1 = s"
      by (auto simp: worker_op_def sendRequest_step_def)
    with CasMin False show ?thesis by (rule cas_min_fail)
  qed
next
  case LoadMax
  show ?thesis
  proof (cases "MaxDuration (stats s) <s durationNs k")
    case True
    with assms LoadMax have "k' = k\<lparr>pc := CasMax (MaxDuration (stats s))\<rparr>" "s1 = s"
      by (auto simp: worker_op_def sendRequest_step_def)
    with LoadMax True show ?thesis by (rule load_max_gt)
  next
    case False
    with assms LoadMax have "k' = k\<lparr>pc := CheckErr\<rparr>" "s1 = s"
      by (auto simp: worker_op_def sendRequest_step_def)
    with LoadMax False show ?thesis by (rule load_max_le)
  qed
next
  case (CasMax cur)
  show ?thesis
  proof (cases "MaxDuration (stats s) = cur")
    case True
    with assms CasMax have "k' = k\<lparr>pc := CheckErr\<rparr>"
      "s1 = s\<lparr>stats := (stats s)\<lparr>MaxDuration := durationNs k\<rparr>\<rparr>"
      by (auto simp: worker_op_def sendRequest_step_def)
    moreover from CasMax True have "pc k = CasMax (MaxDuration (stats s))" by simp
    ultimately show ?thesis using cas_max_ok by blast
  next
    case False
    with assms CasMax have "k' = k\<lparr>pc := LoadMax\<rparr>" "s1 = s"
      by (auto simp: worker_op_def sendRequest_step_def)
    with CasMax False show ?thesis by (rule cas_max_fail)
  qed
next
  case CheckErr
  show ?thesis
  proof (cases "resp k")
    case None
    with assms CheckErr have "k' = k\<lparr>pc := SendResult\<rparr>"
      "s1 = s\<lparr>stats := (stats s)\<lparr>FailedRequests := FailedRequests (stats s) + 1\<rparr>\<rparr>"
      by (auto simp: worker_op_def sendRequest_step_def)
    with CheckErr None show ?thesis by (rule failed)
  next
    case (Some code)
    with assms CheckErr have "k' = k\<lparr>pc := LoadCode code\<rparr>"
      "s1 = s\<lparr>stats := (stats s)\<lparr>SuccessfulRequests := SuccessfulRequests (stats s) + 1\<rparr>\<rparr>"
      by (auto simp: worker_op_def sendRequest_step_def)
    with CheckErr Some show ?thesis by (rule succeeded)
  qed
next
  case (LoadCode code)
  with assms have "k' = k\<lparr>pc := StoreCode code (Load (StatusCodes (stats s)) code)\<rparr>" "s1 = s"
    by (auto simp: worker_op_def sendRequest_step_def)
  with LoadCode show ?thesis by (rule load_code)
next
  case (StoreCode code loaded)
  with assms have "k' = k\<lparr>pc := SendResult\<rparr>"
    "s1 = s\<lparr>stats := (stats s)\<lparr>StatusCodes :=
          Store (StatusCodes (stats s)) code (case loaded of None \<Rightarrow> 1 | Some cnt \<Rightarrow> cnt + 1)\<rparr>\<rparr>"
    by (auto simp: worker_op_def sendRequest_step_def split: option.splits)
  with StoreCode show ?thesis by (rule store_code)
next
  case SendResult
  with assms have "results s < n" "k' = k\<lparr>pc := Recv\<rparr>" "s1 = s\<lparr>results := Suc (results s)\<rparr>"
    by (auto simp: worker_op_def split: if_splits)
  with SendResult show ?thesis by (rule send_result)
next
  case Done
  with assms show ?thesis by (simp add: worker_op_def)
qed

lemma linv_mono:
  "linv exec s k \<Longrightarrow> set (calls s) \<subseteq> set (calls s1) \<Longrightarrow> linv exec s1 k"
  by (auto simp: linv_def)

lemma worker_op_calls:
  assumes "worker_op exec n w k s = Some (k', s1)"
  shows "calls s1 = calls s \<or>
    (calls s1 = calls s @ [(w, requestNum k)] \<and> pc k = ClientDo \<and> pc k' = AddTotal
      \<and> requestNum k' = requestNum k)"
  using assms by (cases rule: worker_op_cases) simp_all

lemma worker_op_calls_mono:
  assumes "worker_op exec n w k s = Some (k', s1)"
  shows "set (calls s) \<subseteq> set (calls s1)"
  using worker_op_calls [OF assms] by auto

lemma linv_op:
  assumes "worker_op exec n w k s = Some (k', s1)" and "linv exec s k"
  shows "linv exec s1 k'"
  using assms by (cases rule: worker_op_cases) (auto simp: linv_def)

lemma linv_duration_mem:
  assumes "linv exec s k" and "2 \<le> stage (pc k)" and "stage (pc k) \<le> 9"
  shows "durationNs k \<in> set (durations exec (calls s))"
proof -
  from assms obtain c where "c \<in> set (calls s)" "snd c = requestNum k"
    "durationNs k = fst (exec (requestNum k))"
    by (auto simp: linv_def)
  then have "durationNs k = fst (exec (snd c))" by simp
  with \<open>c \<in> set (calls s)\<close> show ?thesis by (auto simp: durations_def)
qed

lemma inv_local_worker:
  assumes step: "worker_step exec n w s = Some s'" and inv: "inv_local exec s"
  shows "inv_local exec s'"
proof -
  from step obtain k' s1 where w: "w < length (workers s)"
    and op: "worker_op exec n w (workers s ! w) s = Some (k', s1)"
    and s': "s' = s1\<lparr>workers := (workers s)[w := k']\<rparr>"
    by (rule worker_stepE)
  have calls': "calls s' = calls s1" by (simp add: s')
  have mono: "set (calls s) \<subseteq> set (calls s')"
    using worker_op_calls_mono [OF op] by (simp add: calls')
  have "linv exec s' k" if "k \<in> set (workers s')" for k
  proof -
    from that have "k = k' \<or> k \<in> set (workers s)"
      using set_update_subset_insert [of "workers s" w k'] by (auto simp: s')
    then show ?thesis
    proof
      assume "k = k'"
      moreover have "linv exec s (workers s ! w)" using inv w by (simp add: inv_local_def)
      ultimately have "linv exec s1 k" using linv_op [OF op] by simp
      then show ?thesis by (rule linv_mono) (simp add: calls')
    next
      assume "k \<in> set (workers s)"
      with inv have "linv exec s k" by (simp add: inv_local_def)
      then show ?thesis using mono by (rule linv_mono)
    qed
  qed
  then show ?thesis by (simp add: inv_local_def)
qed

lemma inv_local_main:
  assumes "main_step n s = Some s'" and "inv_local exec s"
  shows "inv_local exec s'"
  using assms(2) main_step_frame [OF assms(1)] by (simp add: inv_local_def linv_def)

lemma inv_local_waiter:
  assumes "waiter_step s = Some s'" and "inv_local exec s"
  shows "inv_local exec s'"
  using assms(2) waiter_step_frame [OF assms(1)] by (simp add: inv_local_def linv_def)

lemma min_op:
  assumes "worker_op exec n w k s = Some (k', s1)" and "linv exec s k"
  shows "MinDuration (stats s1) \<le>s MinDuration (stats s)"
    and "MinDuration (stats s1) = MinDuration (stats s) \<or>
      MinDuration (stats s1) \<in> set (durations exec (calls s))"
    and "2 \<le> stage (pc k) \<and> stage (pc k) \<le> 4 \<Longrightarrow>
      (2 \<le> stage (pc k') \<and> stage (pc k') \<le> 4 \<and> requestNum k' = requestNum k) \<or>
      MinDuration (stats s1) \<le>s fst (exec (requestNum k))"
proof -
  show "MinDuration (stats s1) \<le>s MinDuration (stats s)"
    using assms by (cases rule: worker_op_cases) (auto simp: linv_def signed.less_imp_le)
  show "MinDuration (stats s1) = MinDuration (stats s) \<or>
      MinDuration (stats s1) \<in> set (durations exec (calls s))"
    using assms(1) linv_duration_mem [OF assms(2)]
    by (cases rule: worker_op_cases) simp_all
  show "(2 \<le> stage (pc k') \<and> stage (pc k') \<le> 4 \<and> requestNum k' = requestNum k) \<or>
      MinDuration (stats s1) \<le>s fst (exec (requestNum k))"
    if "2 \<le> stage (pc k) \<and> stage (pc k) \<le> 4"
    using assms that
    by (cases rule: worker_op_cases) (auto simp: linv_def signed.not_less)
qed

lemma inv_min_worker:
  assumes step: "worker_step exec n w s = Some s'" and inv: "inv_min exec st0 s"
    and loc: "inv_local exec s"
  shows "inv_min exec st0 s'"
proof -
  from step obtain k' s1 where w: "w < length (workers s)"
    and op: "worker_op exec n w (workers s ! w) s = Some (k', s1)"
    and s': "s' = s1\<lparr>workers := (workers s)[w := k']\<rparr>"
    by (rule worker_stepE)
  let ?k = "workers s ! w"
  have lk: "linv exec s ?k" using loc w by (simp add: inv_local_def)
  note m = min_op [OF op lk]
  have st': "stats s' = stats s1" "calls s' = calls s1"
    "workers s' = (workers s)[w := k']" by (simp_all add: s')
  have mono: "set (calls s) \<subseteq> set (calls s1)" by (rule worker_op_calls_mono [OF op])
  have a: "MinDuration (stats s') \<in> insert (MinDuration st0) (set (durations exec (calls s')))"
  proof -
    from inv have *: "MinDuration (stats s) \<in> insert (MinDuration st0) (set (durations exec (calls s)))"
      by (simp add: inv_min_def)
    from m(2) show ?thesis
    proof
      assume "MinDuration (stats s1) = MinDuration (stats s)"
      with * mono show ?thesis by (auto simp: st' durations_def)
    next
      assume "MinDuration (stats s1) \<in> set (durations exec (calls s))"
      with mono show ?thesis by (auto simp: st' durations_def)
    qed
  qed
  have b: "(\<exists>i < length (workers s'). 2 \<le> stage (pc (workers s' ! i)) \<and>
            stage (pc (workers s' ! i)) \<le> 4 \<and> requestNum (workers s' ! i) = snd c) \<or>
        MinDuration (stats s') \<le>s fst (exec (snd c))" if c: "c \<in> set (calls s')" for c
  proof (cases "c \<in> set (calls s)")
    case False
    with c worker_op_calls [OF op] have "c = (w, requestNum ?k)" "pc k' = AddTotal"
      "requestNum k' = requestNum ?k" by (auto simp: st')
    with w have "w < length (workers s') \<and> 2 \<le> stage (pc (workers s' ! w)) \<and>
            stage (pc (workers s' ! w)) \<le> 4 \<and> requestNum (workers s' ! w) = snd c"
      by (simp add: st')
    then show ?thesis by blast
  next
    case True
    with inv consider
      (pending) i where "i < length (workers s)" "2 \<le> stage (pc (workers s ! i))"
        "stage (pc (workers s ! i)) \<le> 4" "requestNum (workers s ! i) = snd c"
      | (covered) "MinDuration (stats s) \<le>s fst (exec (snd c))"
      by (auto simp: inv_min_def)
    then show ?thesis
    proof cases
      case covered
      with m(1) have "MinDuration (stats s') \<le>s fst (exec (snd c))"
        using signed.order_trans [of "MinDuration (stats s1)" "MinDuration (stats s)"]
        by (simp add: st')
      then show ?thesis by simp
    next
      case pending
      show ?thesis
      proof (cases "i = w")
        case False
        with pending have "i < length (workers s') \<and> 2 \<le> stage (pc (workers s' ! i)) \<and>
            stage (pc (workers s' ! i)) \<le> 4 \<and> requestNum (workers s' ! i) = snd c"
          by (simp add: st')
        then show ?thesis by blast
      next
        case True
        with pending m(3) have "(2 \<le> stage (pc k') \<and> stage (pc k') \<le> 4 \<and>
            requestNum k' = snd c) \<or> MinDuration (stats s1) \<le>s fst (exec (snd c))"
          by auto
        then show ?thesis
        proof
          assume "2 \<le> stage (pc k') \<and> stage (pc k') \<le> 4 \<and> requestNum k' = snd c"
          with w have "w < length (workers s') \<and> 2 \<le> stage (pc (workers s' ! w)) \<and>
            stage (pc (workers s' ! w)) \<le> 4 \<and> requestNum (workers s' ! w) = snd c"
            by (simp add: st')
          then show ?thesis by blast
        next
          assume "MinDuration (stats s1) \<le>s fst (exec (snd c))"
          then show ?thesis by (simp add: st')
        qed
      qed
    qed
  qed
  from a b show ?thesis unfolding inv_min_def by blast
qed

lemma max_op:
  assumes "worker_op exec n w k s = Some (k', s1)" and "linv exec s k"
  shows "MaxDuration (stats s) \<le>s MaxDuration (stats s1)"
    and "MaxDuration (stats s1) = MaxDuration (stats s) \<or>
      MaxDuration (stats s1) \<in> set (durations exec (calls s))"
    and "2 \<le> stage (pc k) \<and> stage (pc k) \<le> 5 \<Longrightarrow>
      (2 \<le> stage (pc k') \<and> stage (pc k') \<le> 5 \<and> requestNum k' = requestNum k) \<or>
      fst (exec (requestNum k)) \<le>s MaxDuration (stats s1)"
proof -
  show "MaxDuration (stats s) \<le>s MaxDuration (stats s1)"
    using assms by (cases rule: worker_op_cases) (auto simp: linv_def signed.less_imp_le)
  show "MaxDuration (stats s1) = MaxDuration (stats s) \<or>
      MaxDuration (stats s1) \<in> set (durations exec (calls s))"
    using assms(1) linv_duration_mem [OF assms(2)]
    by (cases rule: worker_op_cases) simp_all
  show "(2 \<le> stage (pc k') \<and> stage (pc k') \<le> 5 \<and> requestNum k' = requestNum k) \<or>
      fst (exec (requestNum k)) \<le>s MaxDuration (stats s1)"
    if "2 \<le> stage (pc k) \<and> stage (pc k) \<le> 5"
    using assms that
    by (cases rule: worker_op_cases) (auto simp: linv_def signed.not_less)
qed

lemma inv_max_worker:
  assumes step: "worker_step exec n w s = Some s'" and inv: "inv_max exec st0 s"
    and loc: "inv_local exec s"
  shows "inv_max exec st0 s'"
proof -
  from step obtain k' s1 where w: "w < length (workers s)"
    and op: "worker_op exec n w (workers s ! w) s = Some (k', s1)"
    and s': "s' = s1\<lparr>workers := (workers s)[w := k']\<rparr>"
    by (rule worker_stepE)
  let ?k = "workers s ! w"
  have lk: "linv exec s ?k" using loc w by (simp add: inv_local_def)
  note m = max_op [OF op lk]
  have st': "stats s' = stats s1" "calls s' = calls s1"
    "workers s' = (workers s)[w := k']" by (simp_all add: s')
  have mono: "set (calls s) \<subseteq> set (calls s1)" by (rule worker_op_calls_mono [OF op])
  have a: "MaxDuration (stats s') \<in> insert (MaxDuration st0) (set (durations exec (calls s')))"
  proof -
    from inv have *: "MaxDuration (stats s) \<in> insert (MaxDuration st0) (set (durations exec (calls s)))"
      by (simp add: inv_max_def)
    from m(2) show ?thesis
    proof
      assume "MaxDuration (stats s1) = MaxDuration (stats s)"
      with * mono show ?thesis by (auto simp: st' durations_def)
    next
      assume "MaxDuration (stats s1) \<in> set (durations exec (calls s))"
      with mono show ?thesis by (auto simp: st' durations_def)
    qed
  qed
  have b: "(\<exists>i < length (workers s'). 2 \<le> stage (pc (workers s' ! i)) \<and>
            stage (pc (workers s' ! i)) \<le> 5 \<and> requestNum (workers s' ! i) = snd c) \<or>
        fst (exec (snd c)) \<le>s MaxDuration (stats s')" if c: "c \<in> set (calls s')" for c
  proof (cases "c \<in> set (calls s)")
    case False
    with c worker_op_calls [OF op] have "c = (w, requestNum ?k)" "pc k' = AddTotal"
      "requestNum k' = requestNum ?k" by (auto simp: st')
    with w have "w < length (workers s') \<and> 2 \<le> stage (pc (workers s' ! w)) \<and>
            stage (pc (workers s' ! w)) \<le> 5 \<and> requestNum (workers s' ! w) = snd c"
      by (simp add: st')
    then show ?thesis by blast
  next
    case True
    with inv consider
      (pending) i where "i < length (workers s)" "2 \<le> stage (pc (workers s ! i))"
        "stage (pc (workers s ! i)) \<le> 5" "requestNum (workers s ! i) = snd c"
      | (covered) "fst (exec (snd c)) \<le>s MaxDuration (stats s)"
      by (auto simp: inv_max_def)
    then show ?thesis
    proof cases
      case covered
      with m(1) have "fst (exec (snd c)) \<le>s MaxDuration (stats s')"
        using signed.order_trans [of _ "MaxDuration (stats s)" "MaxDuration (stats s1)"]
        by (simp add: st')
      then show ?thesis by simp
    next
      case pending
      show ?thesis
      proof (cases "i = w")
        case False
        with pending have "i < length (workers s') \<and> 2 \<le> stage (pc (workers s' ! i)) \<and>
            stage (pc (workers s' ! i)) \<le> 5 \<and> requestNum (workers s' ! i) = snd c"
          by (simp add: st')
        then show ?thesis by blast
      next
        case True
        with pending m(3) have "(2 \<le> stage (pc k') \<and> stage (pc k') \<le> 5 \<and>
            requestNum k' = snd c) \<or> fst (exec (snd c)) \<le>s MaxDuration (stats s1)"
          by auto
        then show ?thesis
        proof
          assume "2 \<le> stage (pc k') \<and> stage (pc k') \<le> 5 \<and> requestNum k' = snd c"
          with w have "w < length (workers s') \<and> 2 \<le> stage (pc (workers s' ! w)) \<and>
            stage (pc (workers s' ! w)) \<le> 5 \<and> requestNum (workers s' ! w) = snd c"
            by (simp add: st')
          then show ?thesis by blast
        next
          assume "fst (exec (snd c)) \<le>s MaxDuration (stats s1)"
          then show ?thesis by (simp add: st')
        qed
      qed
    qed
  qed
  from a b show ?thesis unfolding inv_max_def by blast
qed

lemma inv_mono_worker:
  assumes step: "worker_step exec n w s = Some s'" and inv: "inv_mono st0 s"
    and loc: "inv_local exec s"
  shows "inv_mono st0 s'"
proof -
  from step obtain k' s1 where w: "w < length (workers s)"
    and op: "worker_op exec n w (workers s ! w) s = Some (k', s1)"
    and s': "s' = s1\<lparr>workers := (workers s)[w := k']\<rparr>"
    by (rule worker_stepE)
  have lk: "linv exec s (workers s ! w)" using loc w by (simp add: inv_local_def)
  have st': "stats s' = stats s1" by (simp add: s')
  from inv have a: "MinDuration (stats s) \<le>s MinDuration st0"
    and b: "MaxDuration st0 \<le>s MaxDuration (stats s)"
    by (simp_all add: inv_mono_def)
  have "MinDuration (stats s1) \<le>s MinDuration st0"
    using min_op(1) [OF op lk] a by (rule signed.order_trans)
  moreover have "MaxDuration st0 \<le>s MaxDuration (stats s1)"
    using b max_op(1) [OF op lk] by (rule signed.order_trans)
  ultimately show ?thesis by (simp add: inv_mono_def st')
qed

lemma inv_ids_worker:
  assumes step: "worker_step exec n w s = Some s'" and inv: "inv_ids s"
  shows "inv_ids s'"
proof -
  from step obtain k' s1 where w: "w < length (workers s)"
    and op: "worker_op exec n w (workers s ! w) s = Some (k', s1)"
    and s': "s' = s1\<lparr>workers := (workers s)[w := k']\<rparr>"
    by (rule worker_stepE)
  have "fst c < length (workers s)" if "c \<in> set (calls s1)" for c
    using worker_op_calls [OF op] that inv w by (auto simp: inv_ids_def)
  then show ?thesis by (simp add: inv_ids_def s')
qed

lemma Store_keys: "set (map fst (Store m key v)) = insert key (set (map fst m))"
  by (induction m) (auto simp: Store_def)

lemma linv_code_mem:
  assumes "linv exec s k" and "pc k = StoreCode code l"
  shows "\<exists>c \<in> set (calls s). snd (exec (snd c)) = Some code"
proof -
  from assms obtain c where "c \<in> set (calls s)" "snd c = requestNum k"
    "resp k = snd (exec (requestNum k))" "resp k = Some code"
    by (auto simp: linv_def)
  then have "snd (exec (snd c)) = Some code" by simp
  with \<open>c \<in> set (calls s)\<close> show ?thesis by blast
qed

lemma codes_op:
  assumes "worker_op exec n w k s = Some (k', s1)" and "linv exec s k"
    and "code \<in> set (map fst (StatusCodes (stats s1)))"
  shows "code \<in> set (map fst (StatusCodes (stats s))) \<or>
    (\<exists>c \<in> set (calls s). snd (exec (snd c)) = Some code)"
  using assms(1)
proof (cases rule: worker_op_cases)
  case (store_code code' loaded)
  from assms(3) have "code = code' \<or> code \<in> set (map fst (StatusCodes (stats s)))"
    by (simp add: store_code(3) Store_keys del: set_map)
  then show ?thesis using linv_code_mem [OF assms(2) store_code(1)] by blast
qed (use assms(3) in simp_all)

lemma inv_codes_worker:
  assumes step: "worker_step exec n w s = Some s'" and inv: "inv_codes exec st0 s"
    and loc: "inv_local exec s"
  shows "inv_codes exec st0 s'"
proof -
  from step obtain k' s1 where w: "w < length (workers s)"
    and op: "worker_op exec n w (workers s ! w) s = Some (k', s1)"
    and s': "s' = s1\<lparr>workers := (workers s)[w := k']\<rparr>"
    by (rule worker_stepE)
  have lk: "linv exec s (workers s ! w)" using loc w by (simp add: inv_local_def)
  have st': "stats s' = stats s1" "calls s' = calls s1" by (simp_all add: s')
  have mono: "set (calls s) \<subseteq> set (calls s1)" by (rule worker_op_calls_mono [OF op])
  show ?thesis unfolding inv_codes_def st'
  proof
    fix code assume "code \<in> set (map fst (StatusCodes (stats s1)))"
    from codes_op [OF op lk this]
    show "code \<in> set (map fst (StatusCodes st0)) \<or>
        (\<exists>c \<in> set (calls s1). snd (exec (snd c)) = Some code)"
    proof
      assume "code \<in> set (map fst (StatusCodes (stats s)))"
      with inv have "code \<in> set (map fst (StatusCodes st0)) \<or>
        (\<exists>c \<in> set (calls s). snd (exec (snd c)) = Some code)"
        unfolding inv_codes_def by blast
      with mono show ?thesis by blast
    next
      assume "\<exists>c \<in> set (calls s). snd (exec (snd c)) = Some code"
      with mono show ?thesis by blast
    qed
  qed
qed

section \<open>Every step lowers the potential\<close>

lemma worker_potential_rise: "worker_potential c st' k \<le> worker_potential c st k + 2"
  by (cases "pc k") (simp_all add: worker_potential_def)

lemma worker_potential_same:
  "MinDuration st' = MinDuration st \<Longrightarrow> MaxDuration st' = MaxDuration st \<Longrightarrow>
    worker_potential c st' k = worker_potential c st k"
  by (cases "pc k") (simp_all add: worker_potential_def)

lemma sum_list_rise:
  fixes f g :: "'a \<Rightarrow> nat"
  assumes "\<And>x. g x \<le> f x + r"
  shows "sum_list (map g xs) \<le> sum_list (map f xs) + r * length xs"
proof (induction xs)
  case Nil
  then show ?case by simp
next
  case (Cons x xs)
  from assms [of x] Cons show ?case by simp
qed

lemma potential_update:
  fixes f f' :: "worker \<Rightarrow> nat"
  assumes w: "w < length ws"
    and rise: "\<And>k. f' k \<le> f k + r"
    and drop: "A' + f' k' + r * length ws < A + f' (ws ! w)"
  shows "A' + sum_list (map f' (ws[w := k'])) < A + sum_list (map f ws)"
proof -
  have "sum_list (map f' (ws[w := k'])) + f' (ws ! w) = sum_list (map f' ws) + f' k'"
    by (rule sum_list_map_update [OF w])
  moreover have "sum_list (map f' ws) \<le> sum_list (map f ws) + r * length ws"
    by (rule sum_list_rise [OF rise])
  ultimately show ?thesis using drop by linarith
qed

lemma potential_worker_op:
  assumes op: "worker_op exec n w k s = Some (k', s1)" and c: "c = length (workers s)"
  shows "(MinDuration (stats s1) = MinDuration (stats s) \<and>
          MaxDuration (stats s1) = MaxDuration (stats s) \<and>
          shared_potential n c s1 + worker_potential c (stats s1) k' < shared_potential n c s + worker_potential c (stats s1) k) \<or>
         shared_potential n c s1 + worker_potential c (stats s1) k' + 2 * c < shared_potential n c s + worker_potential c (stats s1) k"
  using op
  by (cases rule: worker_op_cases) (simp_all add: worker_potential_def shared_potential_def job_cost_def)

lemma shared_potential_workers: "shared_potential n c (s\<lparr>workers := ws\<rparr>) = shared_potential n c s"
  by (simp add: shared_potential_def)

lemma potential_worker:
  assumes step: "worker_step exec n w s = Some s'"
  shows "potential n s' < potential n s"
proof -
  from step obtain k' s1 where w: "w < length (workers s)"
    and op: "worker_op exec n w (workers s ! w) s = Some (k', s1)"
    and s': "s' = s1\<lparr>workers := (workers s)[w := k']\<rparr>"
    by (rule worker_stepE)
  let ?c = "length (workers s)"
  have eq: "potential n s' = shared_potential n ?c s1
      + sum_list (map (worker_potential ?c (stats s1)) ((workers s)[w := k']))"
    by (simp add: potential_def s' shared_potential_workers)
  from potential_worker_op [OF op refl]
  have "shared_potential n ?c s1 + sum_list (map (worker_potential ?c (stats s1)) ((workers s)[w := k']))
      < shared_potential n ?c s + sum_list (map (worker_potential ?c (stats s)) (workers s))"
  proof
    assume a: "MinDuration (stats s1) = MinDuration (stats s) \<and>
          MaxDuration (stats s1) = MaxDuration (stats s) \<and>
          shared_potential n ?c s1 + worker_potential ?c (stats s1) k'
            < shared_potential n ?c s + worker_potential ?c (stats s1) (workers s ! w)"
    show ?thesis
    proof (rule potential_update [OF w, where r = 0])
      show "worker_potential ?c (stats s1) k \<le> worker_potential ?c (stats s) k + 0" for k
        using a worker_potential_same [of "stats s1" "stats s" ?c k] by simp
      show "shared_potential n ?c s1 + worker_potential ?c (stats s1) k' + 0 * ?c
        < shared_potential n ?c s + worker_potential ?c (stats s1) (workers s ! w)"
        using a by simp
    qed
  next
    assume a: "shared_potential n ?c s1 + worker_potential ?c (stats s1) k' + 2 * ?c
      < shared_potential n ?c s + worker_potential ?c (stats s1) (workers s ! w)"
    show ?thesis
    proof (rule potential_update [OF w, where r = 2])
      show "worker_potential ?c (stats s1) k \<le> worker_potential ?c (stats s) k + 2" for k
        by (rule worker_potential_rise)
      show "shared_potential n ?c s1 + worker_potential ?c (stats s1) k' + 2 * ?c
        < shared_potential n ?c s + worker_potential ?c (stats s1) (workers s ! w)"
        by (rule a)
    qed
  qed
  then show ?thesis unfolding eq by (simp add: potential_def)
qed

lemma potential_main:
  assumes "main_step n s = Some s'"
  shows "potential n s' < potential n s"
proof (cases "main s")
  case (SendJobs i)
  show ?thesis
  proof (cases "i < n")
    case True
    with assms SendJobs have s': "s' = s\<lparr>jobs := jobs s @ [i], main := SendJobs (Suc i)\<rparr>"
      by (auto simp: main_step_def split: if_splits)
    obtain m where m: "n - i = Suc m" "n - Suc i = m"
      using True by (cases "n - i") auto
    show ?thesis
      by (simp add: potential_def shared_potential_def s' SendJobs m)
  next
    case False
    with assms SendJobs show ?thesis
      by (auto simp: main_step_def potential_def shared_potential_def)
  qed
next
  case GoWait
  with assms show ?thesis by (auto simp: main_step_def potential_def shared_potential_def)
next
  case Progress
  with assms show ?thesis
    by (auto simp: main_step_def potential_def shared_potential_def split: if_splits)
next
  case Returned
  with assms show ?thesis by (simp add: main_step_def)
qed

lemma potential_waiter:
  assumes "waiter_step s = Some s'"
  shows "potential n s' < potential n s"
  using assms
  by (auto simp: waiter_step_def potential_def shared_potential_def split: if_splits main_pc.splits)

lemma potential_step:
  assumes "step exec n t s = Some s'"
  shows "potential n s' < potential n s"
  using assms potential_main potential_waiter potential_worker by (cases t) auto

lemma taken_potential: "taken exec n sched s + potential n (run exec n sched s) \<le> potential n s"
proof (induction sched arbitrary: s)
  case Nil
  then show ?case by simp
next
  case (Cons t ts)
  show ?case
  proof (cases "step exec n t s")
    case None
    with Cons [of s] show ?thesis by (simp add: sched_step_def)
  next
    case (Some s')
    with Cons [of s'] potential_step [OF Some, of ] show ?thesis
      by (simp add: sched_step_def)
  qed
qed

lemma potential_start: "potential n (start c st) = n * (14 + 4 * c) + c + 4"
  by (simp add: potential_def start_def shared_potential_def job_cost_def worker_potential_def idle_def sum_list_replicate)

lemma sum_list_replicate_zero: "sum_list (replicate c (0::'b::comm_monoid_add)) = 0"
  by (induction c) simp_all

lemma sum_list_replicate_empty: "sum_list (replicate c ({#}::'a multiset)) = {#}"
  using sum_list_replicate_zero [where 'b = "'a multiset"] by simp

lemma sum_list_all_zero:
  fixes f :: "'a \<Rightarrow> 'b::comm_monoid_add"
  shows "list_all (\<lambda>x. f x = 0) xs \<Longrightarrow> sum_list (map f xs) = 0"
  by (induction xs) simp_all

lemma Inv_start: "Inv exec n st0 (start c st0)"
  unfolding Inv_def
proof (intro conjI)
  show "inv_jobs n (start c st0)"
    by (simp add: inv_jobs_def start_def sent_def sum_list_replicate_empty at_do_def idle_def)
  show "inv_ctl n (start c st0)"
    by (simp add: inv_ctl_def start_def sent_def sending_def idle_def)
  show "inv_results (start c st0)"
    by (simp add: inv_results_def start_def sum_list_replicate_zero busy_def idle_def)
  show "inv_total st0 (start c st0)"
    by (simp add: inv_total_def start_def sum_list_replicate_zero owes_total_def idle_def)
  show "inv_duration exec st0 (start c st0)"
    by (simp add: inv_duration_def start_def sum_list_replicate_zero owes_duration_def
        idle_def durations_def)
  show "inv_success exec st0 (start c st0)"
    by (simp add: inv_success_def start_def sum_list_replicate_zero owes_success_def
        idle_def responses_def)
  show "inv_failure exec st0 (start c st0)"
    by (simp add: inv_failure_def start_def sum_list_replicate_zero owes_failure_def
        idle_def failures_def)
  show "inv_local exec (start c st0)"
    by (simp add: inv_local_def start_def linv_def idle_def)
  show "inv_min exec st0 (start c st0)"
    by (simp add: inv_min_def start_def)
  show "inv_max exec st0 (start c st0)"
    by (simp add: inv_max_def start_def)
  show "inv_mono st0 (start c st0)"
    by (simp add: inv_mono_def start_def)
  show "inv_ids (start c st0)"
    by (simp add: inv_ids_def start_def)
  show "inv_codes exec st0 (start c st0)"
    by (simp add: inv_codes_def start_def)
qed

lemma Inv_main:
  assumes step: "main_step n s = Some s'" and inv: "Inv exec n st0 s"
  shows "Inv exec n st0 s'"
proof -
  note fr = main_step_frame [OF step]
  from inv have ctl: "inv_ctl n s" by (simp add: Inv_def)
  then have "sent n s \<le> n" by (simp add: inv_ctl_def)
  with inv step have "inv_jobs n s'" by (simp add: Inv_def inv_jobs_main)
  moreover have "inv_ctl n s'" using step ctl by (rule inv_ctl_main)
  moreover have "inv_results s'" using step inv by (simp add: Inv_def inv_results_main)
  moreover have "inv_total st0 s'" using inv by (simp add: Inv_def inv_total_def fr)
  moreover have "inv_duration exec st0 s'" using inv by (simp add: Inv_def inv_duration_def fr)
  moreover have "inv_success exec st0 s'" using inv by (simp add: Inv_def inv_success_def fr)
  moreover have "inv_failure exec st0 s'" using inv by (simp add: Inv_def inv_failure_def fr)
  moreover have "inv_local exec s'" using step inv by (simp add: Inv_def inv_local_main)
  moreover have "inv_min exec st0 s'" using inv by (simp add: Inv_def inv_min_def fr)
  moreover have "inv_max exec st0 s'" using inv by (simp add: Inv_def inv_max_def fr)
  moreover have "inv_mono st0 s'" using inv by (simp add: Inv_def inv_mono_def fr)
  moreover have "inv_ids s'" using inv by (simp add: Inv_def inv_ids_def fr)
  moreover have "inv_codes exec st0 s'" using inv by (simp add: Inv_def inv_codes_def fr)
  ultimately show ?thesis by (simp add: Inv_def)
qed

lemma Inv_waiter:
  assumes step: "waiter_step s = Some s'" and inv: "Inv exec n st0 s"
  shows "Inv exec n st0 s'"
proof -
  note fr = waiter_step_frame [OF step]
  have "inv_jobs n s'" using step inv by (simp add: Inv_def inv_jobs_waiter)
  moreover have "inv_ctl n s'" using step inv by (simp add: Inv_def inv_ctl_waiter)
  moreover have "inv_results s'" using step inv by (simp add: Inv_def inv_results_waiter)
  moreover have "inv_total st0 s'" using inv by (simp add: Inv_def inv_total_def fr)
  moreover have "inv_duration exec st0 s'" using inv by (simp add: Inv_def inv_duration_def fr)
  moreover have "inv_success exec st0 s'" using inv by (simp add: Inv_def inv_success_def fr)
  moreover have "inv_failure exec st0 s'" using inv by (simp add: Inv_def inv_failure_def fr)
  moreover have "inv_local exec s'" using step inv by (simp add: Inv_def inv_local_waiter)
  moreover have "inv_min exec st0 s'" using inv by (simp add: Inv_def inv_min_def fr)
  moreover have "inv_max exec st0 s'" using inv by (simp add: Inv_def inv_max_def fr)
  moreover have "inv_mono st0 s'" using inv by (simp add: Inv_def inv_mono_def fr)
  moreover have "inv_ids s'" using inv by (simp add: Inv_def inv_ids_def fr)
  moreover have "inv_codes exec st0 s'" using inv by (simp add: Inv_def inv_codes_def fr)
  ultimately show ?thesis by (simp add: Inv_def)
qed

lemma Inv_worker:
  assumes step: "worker_step exec n w s = Some s'" and inv: "Inv exec n st0 s"
  shows "Inv exec n st0 s'"
proof -
  from inv have loc: "inv_local exec s" by (simp add: Inv_def)
  have "inv_jobs n s'" using step inv by (simp add: Inv_def inv_jobs_worker)
  moreover have "inv_ctl n s'" using step inv by (simp add: Inv_def inv_ctl_worker)
  moreover have "inv_results s'" using step inv by (simp add: Inv_def inv_results_worker)
  moreover have "inv_total st0 s'" using step inv by (simp add: Inv_def inv_total_worker)
  moreover have "inv_duration exec st0 s'"
    using step inv by (simp add: Inv_def inv_duration_worker)
  moreover have "inv_success exec st0 s'"
    using step inv by (simp add: Inv_def inv_success_worker)
  moreover have "inv_failure exec st0 s'"
    using step inv by (simp add: Inv_def inv_failure_worker)
  moreover have "inv_local exec s'" using step loc by (rule inv_local_worker)
  moreover have "inv_min exec st0 s'" using step inv loc by (simp add: Inv_def inv_min_worker)
  moreover have "inv_max exec st0 s'" using step inv loc by (simp add: Inv_def inv_max_worker)
  moreover have "inv_mono st0 s'" using step inv loc by (simp add: Inv_def inv_mono_worker)
  moreover have "inv_ids s'" using step inv by (simp add: Inv_def inv_ids_worker)
  moreover have "inv_codes exec st0 s'"
    using step inv loc by (simp add: Inv_def inv_codes_worker)
  ultimately show ?thesis by (simp add: Inv_def)
qed

lemma Inv_step:
  assumes "step exec n t s = Some s'" and "Inv exec n st0 s"
  shows "Inv exec n st0 s'"
  using assms Inv_main Inv_waiter Inv_worker by (cases t) auto

lemma Inv_sched_step: "Inv exec n st0 s \<Longrightarrow> Inv exec n st0 (sched_step exec n t s)"
  by (cases "step exec n t s") (auto simp: sched_step_def intro: Inv_step)

lemma Inv_run: "Inv exec n st0 s \<Longrightarrow> Inv exec n st0 (run exec n sched s)"
  by (induction sched arbitrary: s) (simp_all add: Inv_sched_step)

lemma Inv_reach: "Inv exec n st0 (run exec n sched (start c st0))"
  by (rule Inv_run [OF Inv_start])

lemma step_length_workers:
  assumes "step exec n t s = Some s'"
  shows "length (workers s') = length (workers s)"
proof (cases t)
  case Main
  with assms show ?thesis by (simp add: main_step_frame)
next
  case Waiter
  with assms show ?thesis by (simp add: waiter_step_frame)
next
  case (Worker w)
  with assms have "worker_step exec n w s = Some s'" by simp
  then show ?thesis by (rule worker_stepE) simp
qed

lemma run_length_workers: "length (workers (run exec n sched s)) = length (workers s)"
proof (induction sched arbitrary: s)
  case Nil
  then show ?case by simp
next
  case (Cons t ts)
  show ?case
    by (cases "step exec n t s") (simp_all add: Cons sched_step_def step_length_workers)
qed

section \<open>Runs that have returned; runs that have not\<close>

lemma finished_workers:
  assumes "Inv exec n st0 s" and "main s = Returned"
  shows "list_all (\<lambda>k. pc k = Done) (workers s)"
  using assms by (simp add: Inv_def inv_ctl_def)

lemma all_Done_sum:
  fixes f :: "worker \<Rightarrow> 'b::comm_monoid_add"
  assumes "list_all (\<lambda>k. pc k = Done) ws" and "\<And>k. pc k = Done \<Longrightarrow> f k = 0"
  shows "sum_list (map f ws) = 0"
proof (rule sum_list_all_zero)
  from assms show "list_all (\<lambda>k. f k = 0) ws" by (simp add: list_all_iff)
qed

lemma finished_counts:
  assumes inv: "Inv exec n st0 s" and fin: "main s = Returned"
  shows "TotalRequests (stats s) = TotalRequests st0 + of_nat (length (calls s))"
    and "TotalDuration (stats s) = TotalDuration st0 + sum_list (durations exec (calls s))"
    and "SuccessfulRequests (stats s)
      = SuccessfulRequests st0 + of_nat (length (responses exec (calls s)))"
    and "FailedRequests (stats s) = FailedRequests st0 + of_nat (length (failures exec (calls s)))"
proof -
  note d = finished_workers [OF inv fin]
  have "sum_list (map owes_total (workers s)) = 0"
    by (rule all_Done_sum [OF d]) (simp add: owes_total_def)
  with inv show "TotalRequests (stats s) = TotalRequests st0 + of_nat (length (calls s))"
    by (simp add: Inv_def inv_total_def)
  have "sum_list (map owes_duration (workers s)) = 0"
    by (rule all_Done_sum [OF d]) (simp add: owes_duration_def)
  with inv show "TotalDuration (stats s) = TotalDuration st0 + sum_list (durations exec (calls s))"
    by (simp add: Inv_def inv_duration_def)
  have "sum_list (map owes_success (workers s)) = 0"
    by (rule all_Done_sum [OF d]) (simp add: owes_success_def)
  with inv show "SuccessfulRequests (stats s)
      = SuccessfulRequests st0 + of_nat (length (responses exec (calls s)))"
    by (simp add: Inv_def inv_success_def)
  have "sum_list (map owes_failure (workers s)) = 0"
    by (rule all_Done_sum [OF d]) (simp add: owes_failure_def)
  with inv show "FailedRequests (stats s)
      = FailedRequests st0 + of_nat (length (failures exec (calls s)))"
    by (simp add: Inv_def inv_failure_def)
qed

lemma responses_failures_length:
  "length (responses exec cs) + length (failures exec cs) = length cs"
proof -
  have "length (filter (\<lambda>c. snd (exec (snd c)) = None) cs)
      + length (filter (\<lambda>c. \<not> snd (exec (snd c)) = None) cs) = length cs"
    by (rule sum_length_filter_compl)
  then show ?thesis by (simp add: responses_def failures_def add.commute)
qed

lemma finished_calls:
  assumes inv: "Inv exec n st0 s" and fin: "main s = Returned" and ws: "workers s \<noteq> []"
  shows "mset (map snd (calls s)) = mset [0..<n]"
proof -
  note d = finished_workers [OF inv fin]
  from ws obtain k where k: "k \<in> set (workers s)" by (cases "workers s") auto
  with d have "pc k = Done" by (simp add: list_all_iff)
  with k inv have "jobs s = []" by (auto simp: Inv_def inv_ctl_def)
  moreover have "sum_list (map at_do (workers s)) = {#}"
    using all_Done_sum [OF d, of at_do] by (simp add: at_do_def)
  moreover have "sent n s = n" using fin by (simp add: sent_def)
  ultimately show ?thesis using inv by (simp add: Inv_def inv_jobs_def)
qed

lemma finished_length_calls:
  assumes "Inv exec n st0 s" and "main s = Returned" and "workers s \<noteq> []"
  shows "length (calls s) = n"
proof -
  have "size (mset (map snd (calls s))) = size (mset [0..<n])"
    by (simp only: finished_calls [OF assms])
  then show ?thesis by simp
qed

lemma calls_bound:
  assumes "Inv exec n st0 s"
  shows "length (calls s) + length (jobs s) \<le> sent n s" and "sent n s \<le> n"
proof -
  from assms have "size (mset (map snd (calls s)) + mset (jobs s)
      + sum_list (map at_do (workers s))) = size (mset [0..<sent n s])"
    by (simp only: Inv_def inv_jobs_def)
  then show "length (calls s) + length (jobs s) \<le> sent n s" by simp
  from assms show "sent n s \<le> n" by (simp add: Inv_def inv_ctl_def)
qed

lemma nth_le_sum_list:
  fixes f :: "'a \<Rightarrow> nat"
  shows "i < length xs \<Longrightarrow> f (xs ! i) \<le> sum_list (map f xs)"
proof (induction xs arbitrary: i)
  case Nil
  then show ?case by simp
next
  case (Cons x xs)
  show ?case
  proof (cases i)
    case 0
    then show ?thesis by simp
  next
    case (Suc j)
    with Cons.prems have "f (xs ! j) \<le> sum_list (map f xs)" by (intro Cons.IH) simp
    with Suc show ?thesis by simp
  qed
qed

lemma busy_results:
  assumes inv: "Inv exec n st0 s" and w: "w < length (workers s)"
    and b: "pc (workers s ! w) = SendResult"
  shows "results s < n"
proof -
  have "busy (workers s ! w) = 1" using b by (simp add: busy_def)
  moreover have "busy (workers s ! w) \<le> sum_list (map busy (workers s))"
    using w by (rule nth_le_sum_list)
  moreover from inv have "results s + completed s + sum_list (map busy (workers s))
      = length (calls s)" by (simp add: Inv_def inv_results_def)
  ultimately have "results s < length (calls s)" by simp
  with calls_bound [OF inv] show ?thesis by simp
qed

lemma worker_enabled:
  assumes inv: "Inv exec n st0 s" and w: "w < length (workers s)"
    and nd: "pc (workers s ! w) \<noteq> Done" and closed: "jobs_closed s"
  shows "worker_step exec n w s \<noteq> None"
proof -
  have "worker_op exec n w (workers s ! w) s \<noteq> None"
  proof (cases "pc (workers s ! w)")
    case Recv
    with closed show ?thesis by (simp add: worker_op_def split: list.splits)
  next
    case SendResult
    with busy_results [OF inv w] show ?thesis by (simp add: worker_op_def)
  next
    case Done
    with nd show ?thesis by simp
  qed (simp_all add: worker_op_def)
  with w show ?thesis by (auto simp: worker_step_def)
qed

lemma progress:
  assumes inv: "Inv exec n st0 s" and nf: "main s \<noteq> Returned"
  shows "\<exists>t. step exec n t s \<noteq> None"
proof (cases "main s")
  case (SendJobs i)
  have "step exec n Main s \<noteq> None"
  proof (cases "i < n")
    case True
    from calls_bound(1) [OF inv] SendJobs have "length (jobs s) \<le> i" by (simp add: sent_def)
    with True SendJobs show ?thesis by (simp add: main_step_def)
  next
    case False
    with SendJobs show ?thesis by (simp add: main_step_def)
  qed
  then show ?thesis by blast
next
  case GoWait
  then have "step exec n Main s \<noteq> None" by (simp add: main_step_def)
  then show ?thesis by blast
next
  case Progress
  from inv Progress have closed: "jobs_closed s" and waiting: "waiting s"
    by (simp_all add: Inv_def inv_ctl_def sending_def)
  show ?thesis
  proof (cases "0 < results s \<or> results_closed s")
    case True
    with Progress have "step exec n Main s \<noteq> None" by (auto simp: main_step_def)
    then show ?thesis by blast
  next
    case False
    show ?thesis
    proof (cases "list_all (\<lambda>k. pc k = Done) (workers s)")
      case True
      with False waiting have "step exec n Waiter s \<noteq> None" by (simp add: waiter_step_def)
      then show ?thesis by blast
    next
      case False
      then obtain w where "w < length (workers s)" "pc (workers s ! w) \<noteq> Done"
        by (auto simp: list_all_length)
      with inv closed have "step exec n (Worker w) s \<noteq> None"
        by (simp add: worker_enabled)
      then show ?thesis by blast
    qed
  qed
next
  case Returned
  with nf show ?thesis by simp
qed

lemma can_finish:
  assumes "Inv exec n st0 s"
  shows "\<exists>sched. main (run exec n sched s) = Returned"
  using assms
proof (induction "potential n s" arbitrary: s rule: less_induct)
  case less
  show ?case
  proof (cases "main s = Returned")
    case True
    then have "main (run exec n [] s) = Returned" by simp
    then show ?thesis by blast
  next
    case False
    with less.prems obtain t s' where st: "step exec n t s = Some s'"
      using progress by fastforce
    from potential_step [OF st] Inv_step [OF st less.prems]
    obtain sched where "main (run exec n sched s') = Returned"
      using less.hyps by blast
    with st have "main (run exec n (t # sched) s) = Returned" by (simp add: sched_step_def)
    then show ?thesis by blast
  qed
qed

lemma run_append: "run exec n (xs @ ys) s = run exec n ys (run exec n xs s)"
  by (induction xs arbitrary: s) simp_all

section \<open>The properties of the specification\<close>

subsection \<open>When the run takes place\<close>

lemma makechan_Made:
  "makechan lib elem_size cap = Made \<longleftrightarrow>
     \<not> cap <s 0 \<and> elem_size * unat cap < 2 ^ 64 \<and>
     elem_size * unat cap \<le> maxAlloc lib - hchanSize lib \<and>
     mallocgc lib (hchanSize lib + elem_size * unat cap)"
  by (auto simp: makechan_def)

lemma channels_made_nonneg: "channels_made lib config \<Longrightarrow> \<not> NumRequests config <s 0"
  by (simp add: channels_made_def makechan_Made)

lemma ran_iff:
  "runLoadTest lib exec config st sched = Ran s \<longleftrightarrow>
     \<not> NumRequests config <s 0 \<and> channels_made lib config \<and>
     \<not> isl (createBaseRequest lib config []) \<and> Concurrency config <s 2 ^ 31 \<and>
     s = run exec (nat (sint (NumRequests config))) sched
           (start (nat (sint (Concurrency config))) st)"
proof (cases "channels_made lib config")
  case True
  then show ?thesis
    using channels_made_nonneg [OF True]
    by (cases "createBaseRequest lib config []")
      (auto simp: runLoadTest_def channels_made_def)
next
  case False
  then show ?thesis
    by (cases "makechan lib 8 (NumRequests config)"; cases "makechan lib 1 (NumRequests config)")
      (simp_all add: runLoadTest_def channels_made_def)
qed

subsection \<open>C1: the counters add up\<close>

lemma of_nat_nat_sint:
  fixes x :: "64 word"
  assumes "\<not> x <s 0"
  shows "of_nat (nat (sint x)) = x"
proof -
  from assms have "0 \<le> sint x" by (simp add: word_sless_alt)
  then have "of_nat (nat (sint x)) = (word_of_int (sint x) :: 64 word)"
    by (simp add: word_of_int_nat)
  then show ?thesis by simp
qed

lemma finished_no_calls:
  assumes inv: "Inv exec 0 st0 s"
  shows "calls s = []"
  using calls_bound [OF inv] by simp

lemma finished_totals:
  assumes inv: "Inv exec n st0 s" and fin: "main s = Returned"
    and c: "workers s \<noteq> [] \<or> n = 0"
  shows "TotalRequests (stats s) = TotalRequests st0 + of_nat n"
    and "SuccessfulRequests (stats s) + FailedRequests (stats s)
      = SuccessfulRequests st0 + FailedRequests st0 + of_nat n"
proof -
  have len: "length (calls s) = n"
    using c finished_length_calls [OF inv fin] finished_no_calls inv by auto
  note cnt = finished_counts [OF inv fin]
  show "TotalRequests (stats s) = TotalRequests st0 + of_nat n"
    by (simp add: cnt(1) len)
  have "of_nat (length (responses exec (calls s))) + of_nat (length (failures exec (calls s)))
      = (of_nat n :: int64)"
    by (simp flip: of_nat_add add: responses_failures_length len)
  then show "SuccessfulRequests (stats s) + FailedRequests (stats s)
      = SuccessfulRequests st0 + FailedRequests st0 + of_nat n"
    by (simp add: cnt(3,4) algebra_simps)
qed

lemma owed_between:
  "sum_list (map owes_success ws) + sum_list (map owes_failure ws)
     = sum_list (map owes_total ws)
       + of_nat (length (filter (\<lambda>k. 3 \<le> stage (pc k) \<and> stage (pc k) \<le> 6) ws))"
  by (induction ws) (auto simp: owes_success_def owes_failure_def owes_total_def)

lemma ledgers_combine:
  fixes T :: "'a::comm_ring"
  assumes "T + oT = T0 + c" "A + oA = A0 + r" "B + oB = B0 + f"
    and "oA + oB = oT + m" "r + f = c"
  shows "T + (A0 + B0) = A + B + T0 + m"
proof -
  from assms(1) have t: "T = T0 + c - oT" by (simp add: algebra_simps)
  from assms(2) have a: "A0 = A + oA - r" by (simp add: algebra_simps)
  from assms(3) have b: "B0 = B + oB - f" by (simp add: algebra_simps)
  from assms(4) have m: "m = oA + oB - oT" by (simp add: algebra_simps)
  show ?thesis unfolding t a b m assms(5) [symmetric] by (simp add: algebra_simps)
qed

lemma counted_between:
  assumes inv: "Inv exec n st0 s"
  shows "TotalRequests (stats s) + (SuccessfulRequests st0 + FailedRequests st0)
    = SuccessfulRequests (stats s) + FailedRequests (stats s) + TotalRequests st0
      + of_nat (length (filter (\<lambda>k. 3 \<le> stage (pc k) \<and> stage (pc k) \<le> 6) (workers s)))"
proof -
  from inv have t: "TotalRequests (stats s) + sum_list (map owes_total (workers s))
       = TotalRequests st0 + of_nat (length (calls s))"
    and a: "SuccessfulRequests (stats s) + sum_list (map owes_success (workers s))
       = SuccessfulRequests st0 + of_nat (length (responses exec (calls s)))"
    and b: "FailedRequests (stats s) + sum_list (map owes_failure (workers s))
       = FailedRequests st0 + of_nat (length (failures exec (calls s)))"
    by (simp_all add: Inv_def inv_total_def inv_success_def inv_failure_def)
  have "of_nat (length (responses exec (calls s))) + of_nat (length (failures exec (calls s)))
      = (of_nat (length (calls s)) :: int64)"
    by (simp flip: of_nat_add add: responses_failures_length)
  from ledgers_combine [OF t a b owed_between this] show ?thesis .
qed

text \<open>
  Claim C1, as amended. For every run with a number of requests \<open>N \<ge> 0\<close> whose set-up
  did not fail, at every moment and whatever the schedule and the results of the requests,
  the total count is the successful count plus the failed count plus the number of workers
  that stand between the addition of line 229 and the addition of line 257 or 269. Once
  \<^verbatim>\<open>runLoadTest\<close> has returned, if there is at least one worker (or no request at all), the
  successful and the failed count add up to the total count, and the total count is \<open>N\<close>;
  for \<open>N = 0\<close> the three counters are zero.
\<close>

theorem totals_add_up:
  assumes ran: "runLoadTest lib exec config new_stats sched = Ran s"
  shows "TotalRequests (stats s)
           = SuccessfulRequests (stats s) + FailedRequests (stats s)
             + of_nat (length (filter (\<lambda>k. 3 \<le> stage (pc k) \<and> stage (pc k) \<le> 6)
                 (workers s))) \<and>
         (main s = Returned \<and> (0 <s Concurrency config \<or> NumRequests config = 0) \<longrightarrow>
            SuccessfulRequests (stats s) + FailedRequests (stats s) = TotalRequests (stats s) \<and>
            TotalRequests (stats s) = NumRequests config \<and>
            (NumRequests config = 0 \<longrightarrow>
               SuccessfulRequests (stats s) = 0 \<and> FailedRequests (stats s) = 0))"
proof -
  let ?n = "nat (sint (NumRequests config))" and ?c = "nat (sint (Concurrency config))"
  from ran have pos: "\<not> NumRequests config <s 0"
    and s: "s = run exec ?n sched (start ?c new_stats)"
    by (simp_all add: ran_iff)
  have inv: "Inv exec ?n new_stats s" unfolding s by (rule Inv_reach)
  have between: "TotalRequests (stats s)
           = SuccessfulRequests (stats s) + FailedRequests (stats s)
             + of_nat (length (filter (\<lambda>k. 3 \<le> stage (pc k) \<and> stage (pc k) \<le> 6)
                 (workers s)))"
    using counted_between [OF inv] by (simp add: new_stats_def)
  have at_end: "SuccessfulRequests (stats s) + FailedRequests (stats s) = TotalRequests (stats s) \<and>
            TotalRequests (stats s) = NumRequests config \<and>
            (NumRequests config = 0 \<longrightarrow>
               SuccessfulRequests (stats s) = 0 \<and> FailedRequests (stats s) = 0)"
    if h: "main s = Returned \<and> (0 <s Concurrency config \<or> NumRequests config = 0)"
  proof -
    from h have fin: "main s = Returned"
      and c: "0 <s Concurrency config \<or> NumRequests config = 0" by simp_all
    have "length (workers s) = ?c" by (simp add: s run_length_workers start_def)
    with c have ws: "workers s \<noteq> [] \<or> ?n = 0"
      by (auto simp: word_sless_alt)
    note t = finished_totals [OF inv fin ws]
    have n: "of_nat ?n = NumRequests config" by (rule of_nat_nat_sint [OF pos])
    have tot: "TotalRequests (stats s) = NumRequests config"
      using t(1) by (simp add: n new_stats_def)
    have sum: "SuccessfulRequests (stats s) + FailedRequests (stats s) = NumRequests config"
      using t(2) by (simp add: n new_stats_def)
    have zero: "SuccessfulRequests (stats s) = 0 \<and> FailedRequests (stats s) = 0"
      if "NumRequests config = 0"
    proof -
      from that have "?n = 0" by simp
      with inv have "calls s = []" using finished_no_calls by simp
      with finished_counts(3,4) [OF inv fin] show ?thesis
        by (simp add: responses_def failures_def new_stats_def)
    qed
    from tot sum zero show ?thesis by simp
  qed
  show ?thesis
  proof (rule conjI)
    show "TotalRequests (stats s)
           = SuccessfulRequests (stats s) + FailedRequests (stats s)
             + of_nat (length (filter (\<lambda>k. 3 \<le> stage (pc k) \<and> stage (pc k) \<le> 6)
                 (workers s)))" by (rule between)
  next
    show "main s = Returned \<and> (0 <s Concurrency config \<or> NumRequests config = 0) \<longrightarrow>
            SuccessfulRequests (stats s) + FailedRequests (stats s) = TotalRequests (stats s) \<and>
            TotalRequests (stats s) = NumRequests config \<and>
            (NumRequests config = 0 \<longrightarrow>
               SuccessfulRequests (stats s) = 0 \<and> FailedRequests (stats s) = 0)"
      by (rule impI) (rule at_end)
  qed
qed

text \<open>The theorem at three requests and two workers.\<close>

theorem totals_add_up_witness:
  "runLoadTest permissive (always (5 * Millisecond) (Some 200)) (sample_config 3 2)
      new_stats (rounds 30)
     = Ran (run (always (5 * Millisecond) (Some 200)) 3 (rounds 30) (start 2 new_stats)) \<and>
   main (run (always (5 * Millisecond) (Some 200)) 3 (rounds 30) (start 2 new_stats)) = Returned \<and>
   0 <s Concurrency (sample_config 3 2) \<and>
   TotalRequests (stats (run (always (5 * Millisecond) (Some 200)) 3 (rounds 30)
      (start 2 new_stats))) = 3"
proof -
  have r: "runLoadTest permissive (always (5 * Millisecond) (Some 200)) (sample_config 3 2)
      new_stats (rounds 30)
     = Ran (run (always (5 * Millisecond) (Some 200)) 3 (rounds 30) (start 2 new_stats))"
    by (simp add: runLoadTest_def makechan_def sample_config_def createBaseRequest_def
        NewRequestWithContext_def permissive_def word_sless_alt)
  have f: "main (run (always (5 * Millisecond) (Some 200)) 3 (rounds 30) (start 2 new_stats))
      = Returned"
    by code_simp
  have c: "0 <s Concurrency (sample_config 3 2) \<or> NumRequests (sample_config 3 2) = 0"
    by (simp add: sample_config_def word_sless_alt)
  note t = totals_add_up [OF r, THEN conjunct2, THEN mp, OF conjI [OF f c]]
  from t r f show ?thesis by (simp add: sample_config_def word_sless_alt)
qed

text \<open>
  Claim C1 as stated fails when the concurrency is zero: the loop of line 129 starts no
  worker, the job sent is never received, \<^verbatim>\<open>wg.Wait()\<close> returns at once and
  \<^verbatim>\<open>runLoadTest\<close> returns with a total count of 0 for one request.
\<close>

theorem no_workers_counterexample:
  "runLoadTest permissive (always (5 * Millisecond) (Some 200)) (sample_config 1 0)
      new_stats no_workers
     = Ran (run (always (5 * Millisecond) (Some 200)) 1 no_workers (start 0 new_stats)) \<and>
   main (run (always (5 * Millisecond) (Some 200)) 1 no_workers (start 0 new_stats)) = Returned \<and>
   TotalRequests (stats (run (always (5 * Millisecond) (Some 200)) 1 no_workers
      (start 0 new_stats))) = 0 \<and>
   NumRequests (sample_config 1 0) = 1"
proof -
  have r: "runLoadTest permissive (always (5 * Millisecond) (Some 200)) (sample_config 1 0)
      new_stats no_workers
     = Ran (run (always (5 * Millisecond) (Some 200)) 1 no_workers (start 0 new_stats))"
    by (simp add: runLoadTest_def makechan_def sample_config_def createBaseRequest_def
        NewRequestWithContext_def permissive_def word_sless_alt)
  have f: "main (run (always (5 * Millisecond) (Some 200)) 1 no_workers (start 0 new_stats))
      = Returned"
    by code_simp
  have t: "TotalRequests (stats (run (always (5 * Millisecond) (Some 200)) 1 no_workers
      (start 0 new_stats))) = 0"
    by code_simp
  from r f t show ?thesis by (simp add: sample_config_def)
qed

subsection \<open>C5: every job exactly once\<close>

lemma distinct_snd_unique:
  assumes "distinct (map snd cs)" and "(a, j) \<in> set cs" and "(b, j) \<in> set cs"
  shows "a = b"
proof -
  from assms(1) have "inj_on snd (set cs)" by (simp add: distinct_map)
  from inj_onD [OF this _ assms(2,3)] show ?thesis by simp
qed

lemma finished_unique:
  assumes inv: "Inv exec n st0 s" and fin: "main s = Returned" and ws: "workers s \<noteq> []"
    and j: "j < n"
  shows "\<exists>!w. (w, j) \<in> set (calls s)"
proof -
  note m = finished_calls [OF inv fin ws]
  have dist: "distinct (map snd (calls s))"
    using mset_eq_imp_distinct_iff [OF m] by simp
  have "set (map snd (calls s)) = set [0..<n]"
    using mset_eq_setD [OF m] .
  then have "j \<in> snd ` set (calls s)" using j by simp
  then obtain w where w: "(w, j) \<in> set (calls s)" by force
  show ?thesis
  proof (rule ex1I)
    show "(w, j) \<in> set (calls s)" by (rule w)
  next
    fix w' assume "(w', j) \<in> set (calls s)"
    then show "w' = w" using w by (rule distinct_snd_unique [OF dist])
  qed
qed

lemma can_finish_run:
  "\<exists>sched'. main (run exec n (sched @ sched') (start c st0)) = Returned"
  using can_finish [OF Inv_reach, of exec n sched c st0] by (simp add: run_append)

lemma taken_bound: "taken exec n sched (start c st) \<le> n * (14 + 4 * c) + c + 4"
  using taken_potential [of exec n sched "start c st"] by (simp add: potential_start)

lemma distinct_sub:
  assumes sub: "mset xs \<subseteq># mset ys" and d: "distinct ys"
  shows "distinct xs"
proof -
  have "count (mset xs) a = (if a \<in> set xs then 1 else 0)" for a
  proof (cases "a \<in> set xs")
    case True
    then have "0 < count (mset xs) a" by simp
    moreover have "count (mset xs) a \<le> count (mset ys) a"
      using sub by (rule mset_subset_eq_count)
    moreover have "count (mset ys) a \<le> 1"
      using d by (simp add: distinct_count_atmost_1)
    ultimately have "count (mset xs) a = 1" by linarith
    with True show ?thesis by simp
  next
    case False
    then show ?thesis by (simp add: count_mset_0_iff)
  qed
  then show ?thesis by (simp only: distinct_count_atmost_1) simp
qed

lemma calls_distinct:
  assumes inv: "Inv exec n st0 s"
  shows "distinct (map snd (calls s))" and "set (map snd (calls s)) \<subseteq> {0..<n}"
proof -
  from inv have eq: "mset (map snd (calls s)) + (mset (jobs s) + sum_list (map at_do (workers s)))
      = mset [0..<sent n s]"
    by (simp add: Inv_def inv_jobs_def add.assoc)
  then have sub: "mset (map snd (calls s)) \<subseteq># mset [0..<sent n s]"
    by (metis mset_subset_eq_add_left)
  from sub show "distinct (map snd (calls s))" by (rule distinct_sub) simp
  from sub have "set_mset (mset (map snd (calls s))) \<subseteq> set_mset (mset [0..<sent n s])"
    by (rule set_mset_mono)
  moreover from inv have "sent n s \<le> n" by (simp add: Inv_def inv_ctl_def)
  ultimately show "set (map snd (calls s)) \<subseteq> {0..<n}" by auto
qed

lemma exit_step:
  assumes w: "w < length (workers s)" and pc: "pc (workers s ! w) = Recv"
    and j: "jobs s = []" and c: "jobs_closed s"
  shows "worker_step exec n w s
    = Some (s\<lparr>workers := (workers s)[w := (workers s ! w)\<lparr>pc := Done\<rparr>]\<rparr>)"
  using assms by (simp add: worker_step_def worker_op_def)

text \<open>
  Claim C5. For every run with \<open>N\<close> job indices and concurrency \<open>C \<ge> 1\<close>: at every
  moment no index has been passed to \<^verbatim>\<open>client.Do\<close> twice and every index passed is one of
  \<open>0..N-1\<close>; a worker that stands at the receive while the channel of jobs is closed and
  empty leaves its loop at its next step. Once \<^verbatim>\<open>runLoadTest\<close> has returned, the calls of
  \<^verbatim>\<open>client.Do\<close> are one for each index of \<open>0..N-1\<close> and no other, each index was handled
  by exactly one worker, and every worker is done; a worker is done only when the channel
  of jobs is closed and empty; every run can be continued until \<^verbatim>\<open>runLoadTest\<close> returns,
  and no schedule takes more than \<open>N * (14 + 4 * C) + C + 4\<close> steps, so that every worker
  terminates.
\<close>

theorem each_job_once:
  assumes ran: "runLoadTest lib exec config new_stats sched = Ran s"
    and c: "0 <s Concurrency config"
  shows "distinct (map snd (calls s)) \<and>
         set (map snd (calls s)) \<subseteq> {0..<nat (sint (NumRequests config))} \<and>
         (main s = Returned \<longrightarrow>
            mset (map snd (calls s)) = mset [0..<nat (sint (NumRequests config))] \<and>
            (\<forall>j < nat (sint (NumRequests config)). \<exists>!w. (w, j) \<in> set (calls s)) \<and>
            list_all (\<lambda>k. pc k = Done) (workers s)) \<and>
         ((\<exists>k \<in> set (workers s). pc k = Done) \<longrightarrow> jobs s = [] \<and> jobs_closed s) \<and>
         (\<forall>w < length (workers s).
            pc (workers s ! w) = Recv \<and> jobs s = [] \<and> jobs_closed s \<longrightarrow>
            (\<exists>s'. worker_step exec (nat (sint (NumRequests config))) w s = Some s' \<and>
               pc (workers s' ! w) = Done)) \<and>
         (\<exists>sched' s'. runLoadTest lib exec config new_stats (sched @ sched') = Ran s' \<and>
            main s' = Returned) \<and>
         taken exec (nat (sint (NumRequests config))) sched
             (start (nat (sint (Concurrency config))) new_stats)
           \<le> nat (sint (NumRequests config)) * (14 + 4 * nat (sint (Concurrency config)))
               + nat (sint (Concurrency config)) + 4"
proof -
  let ?n = "nat (sint (NumRequests config))" and ?c = "nat (sint (Concurrency config))"
  from ran have mk: "channels_made lib config" "Concurrency config <s 2 ^ 31"
    by (simp_all add: ran_iff)
  from ran have pos: "\<not> NumRequests config <s 0"
    and ok: "\<not> isl (createBaseRequest lib config [])"
    and s: "s = run exec ?n sched (start ?c new_stats)"
    by (simp_all add: ran_iff)
  have inv: "Inv exec ?n new_stats s" unfolding s by (rule Inv_reach)
  have "length (workers s) = ?c" by (simp add: s run_length_workers start_def)
  with c have ws: "workers s \<noteq> []" by (auto simp: word_sless_alt)
  have a: "mset (map snd (calls s)) = mset [0..<?n] \<and>
      (\<forall>j < ?n. \<exists>!w. (w, j) \<in> set (calls s)) \<and>
      list_all (\<lambda>k. pc k = Done) (workers s)" if fin: "main s = Returned"
  proof (intro conjI allI impI)
    show "mset (map snd (calls s)) = mset [0..<?n]" by (rule finished_calls [OF inv fin ws])
    show "\<exists>!w. (w, j) \<in> set (calls s)" if "j < ?n" for j
      by (rule finished_unique [OF inv fin ws that])
    show "list_all (\<lambda>k. pc k = Done) (workers s)" by (rule finished_workers [OF inv fin])
  qed
  have b: "jobs s = [] \<and> jobs_closed s" if "\<exists>k \<in> set (workers s). pc k = Done"
    using inv that by (auto simp: Inv_def inv_ctl_def)
  obtain sched' where "main (run exec ?n (sched @ sched') (start ?c new_stats)) = Returned"
    using can_finish_run by blast
  moreover have "runLoadTest lib exec config new_stats (sched @ sched')
      = Ran (run exec ?n (sched @ sched') (start ?c new_stats))"
    using pos ok mk by (simp add: ran_iff)
  ultimately have d: "\<exists>sched' s'. runLoadTest lib exec config new_stats (sched @ sched') = Ran s'
      \<and> main s' = Returned"
    by blast
  have e: "\<exists>s'. worker_step exec ?n w s = Some s' \<and> pc (workers s' ! w) = Done"
    if "w < length (workers s)" "pc (workers s ! w) = Recv \<and> jobs s = [] \<and> jobs_closed s" for w
    using that exit_step [of w s exec ?n] by simp
  show ?thesis
  proof (intro conjI impI)
    show "distinct (map snd (calls s))" by (rule calls_distinct(1) [OF inv])
    show "set (map snd (calls s)) \<subseteq> {0..<?n}" by (rule calls_distinct(2) [OF inv])
    show "\<forall>w < length (workers s).
            pc (workers s ! w) = Recv \<and> jobs s = [] \<and> jobs_closed s \<longrightarrow>
            (\<exists>s'. worker_step exec ?n w s = Some s' \<and> pc (workers s' ! w) = Done)"
      using e by blast
  next
    assume fin: "main s = Returned"
    show "mset (map snd (calls s)) = mset [0..<?n]"
      by (rule a [OF fin, THEN conjunct1])
    show "\<forall>j < ?n. \<exists>!w. (w, j) \<in> set (calls s)"
      by (rule a [OF fin, THEN conjunct2, THEN conjunct1])
    show "list_all (\<lambda>k. pc k = Done) (workers s)"
      by (rule a [OF fin, THEN conjunct2, THEN conjunct2])
  next
    assume dn: "\<exists>k \<in> set (workers s). pc k = Done"
    show "jobs s = []" by (rule b [OF dn, THEN conjunct1])
    show "jobs_closed s" by (rule b [OF dn, THEN conjunct2])
  next
    show "\<exists>sched' s'. runLoadTest lib exec config new_stats (sched @ sched') = Ran s'
      \<and> main s' = Returned" by (rule d)
    show "taken exec ?n sched (start ?c new_stats) \<le> ?n * (14 + 4 * ?c) + ?c + 4"
      by (rule taken_bound)
  qed
qed

text \<open>The theorem at three requests and two workers.\<close>

theorem each_job_once_witness:
  "runLoadTest permissive (always (5 * Millisecond) (Some 200)) (sample_config 3 2)
      new_stats (rounds 30)
     = Ran (run (always (5 * Millisecond) (Some 200)) 3 (rounds 30) (start 2 new_stats)) \<and>
   0 <s Concurrency (sample_config 3 2) \<and>
   main (run (always (5 * Millisecond) (Some 200)) 3 (rounds 30) (start 2 new_stats)) = Returned \<and>
   mset (map snd (calls (run (always (5 * Millisecond) (Some 200)) 3 (rounds 30)
      (start 2 new_stats)))) = mset [0..<3]"
proof -
  have r: "runLoadTest permissive (always (5 * Millisecond) (Some 200)) (sample_config 3 2)
      new_stats (rounds 30)
     = Ran (run (always (5 * Millisecond) (Some 200)) 3 (rounds 30) (start 2 new_stats))"
    by (simp add: runLoadTest_def makechan_def sample_config_def createBaseRequest_def
        NewRequestWithContext_def permissive_def word_sless_alt)
  have f: "main (run (always (5 * Millisecond) (Some 200)) 3 (rounds 30) (start 2 new_stats))
      = Returned"
    by code_simp
  have c: "0 <s Concurrency (sample_config 3 2)"
    by (simp add: sample_config_def word_sless_alt)
  have n: "nat (sint (NumRequests (sample_config 3 2))) = 3"
    by (simp add: sample_config_def)
  note t = each_job_once [OF r c, unfolded n]
  have "mset (map snd (calls (run (always (5 * Millisecond) (Some 200)) 3
      (rounds 30) (start 2 new_stats)))) = mset [0..<3]"
    by (rule t [THEN conjunct2, THEN conjunct2, THEN conjunct1, THEN mp, OF f, THEN conjunct1])
  then show ?thesis using r f c by simp
qed

subsection \<open>C6: minimum, maximum and average\<close>

lemma finished_set_calls:
  assumes "Inv exec n st0 s" and "main s = Returned" and "workers s \<noteq> []"
  shows "snd ` set (calls s) = {0..<n}"
  using mset_eq_setD [OF finished_calls [OF assms]] by simp

lemma finished_min:
  assumes inv: "Inv exec n st0 s" and fin: "main s = Returned" and ws: "workers s \<noteq> []"
    and j: "j < n"
  shows "MinDuration (stats s) \<le>s fst (exec j)"
proof -
  from j finished_set_calls [OF inv fin ws] obtain c where c: "c \<in> set (calls s)" "snd c = j"
    by force
  have d: "pc (workers s ! i) = Done" if "i < length (workers s)" for i
    using finished_workers [OF inv fin] that by (simp add: list_all_length)
  from inv c(1) have "(\<exists>i < length (workers s). 2 \<le> stage (pc (workers s ! i)) \<and>
            stage (pc (workers s ! i)) \<le> 4 \<and> requestNum (workers s ! i) = snd c) \<or>
        MinDuration (stats s) \<le>s fst (exec (snd c))"
    by (simp add: Inv_def inv_min_def)
  then show ?thesis using d c(2) by auto
qed

lemma finished_max:
  assumes inv: "Inv exec n st0 s" and fin: "main s = Returned" and ws: "workers s \<noteq> []"
    and j: "j < n"
  shows "fst (exec j) \<le>s MaxDuration (stats s)"
proof -
  from j finished_set_calls [OF inv fin ws] obtain c where c: "c \<in> set (calls s)" "snd c = j"
    by force
  have d: "pc (workers s ! i) = Done" if "i < length (workers s)" for i
    using finished_workers [OF inv fin] that by (simp add: list_all_length)
  from inv c(1) have "(\<exists>i < length (workers s). 2 \<le> stage (pc (workers s ! i)) \<and>
            stage (pc (workers s ! i)) \<le> 5 \<and> requestNum (workers s ! i) = snd c) \<or>
        fst (exec (snd c)) \<le>s MaxDuration (stats s)"
    by (simp add: Inv_def inv_max_def)
  then show ?thesis using d c(2) by auto
qed

lemma durations_mem:
  assumes "d \<in> set (durations exec cs)" and "snd ` set cs = {0..<n}"
  shows "\<exists>j<n. d = fst (exec j)"
proof -
  from assms(1) obtain c where "c \<in> set cs" "d = fst (exec (snd c))"
    by (auto simp: durations_def)
  moreover from this assms(2) have "snd c < n" by force
  ultimately show ?thesis by blast
qed

lemma finished_min_is:
  assumes inv: "Inv exec n st0 s" and fin: "main s = Returned" and ws: "workers s \<noteq> []"
  shows "MinDuration (stats s) = MinDuration st0 \<or> (\<exists>j<n. MinDuration (stats s) = fst (exec j))"
proof -
  from inv have "MinDuration (stats s) \<in> insert (MinDuration st0) (set (durations exec (calls s)))"
    by (simp add: Inv_def inv_min_def)
  then show ?thesis
    using durations_mem [OF _ finished_set_calls [OF inv fin ws]] by blast
qed

lemma finished_max_is:
  assumes inv: "Inv exec n st0 s" and fin: "main s = Returned" and ws: "workers s \<noteq> []"
  shows "MaxDuration (stats s) = MaxDuration st0 \<or> (\<exists>j<n. MaxDuration (stats s) = fst (exec j))"
proof -
  from inv have "MaxDuration (stats s) \<in> insert (MaxDuration st0) (set (durations exec (calls s)))"
    by (simp add: Inv_def inv_max_def)
  then show ?thesis
    using durations_mem [OF _ finished_set_calls [OF inv fin ws]] by blast
qed

lemma finished_duration:
  assumes inv: "Inv exec n st0 s" and fin: "main s = Returned" and ws: "workers s \<noteq> []"
  shows "TotalDuration (stats s) = TotalDuration st0 + sum_list (map (\<lambda>j. fst (exec j)) [0..<n])"
proof -
  have "sum_list (durations exec (calls s))
      = sum_mset (image_mset (\<lambda>j. fst (exec j)) (mset (map snd (calls s))))"
    by (simp add: durations_def flip: sum_mset_sum_list) (simp add: comp_def multiset.map_comp)
  also have "\<dots> = sum_mset (image_mset (\<lambda>j. fst (exec j)) (mset [0..<n]))"
    by (simp only: finished_calls [OF inv fin ws])
  also have "\<dots> = sum_list (map (\<lambda>j. fst (exec j)) [0..<n])"
    by (simp flip: sum_mset_sum_list)
  finally show ?thesis using finished_counts(2) [OF inv fin] by simp
qed

lemma upt_4: "[0..<4] = [0, 1, 2, 3]"
  by (simp add: upt_rec)

lemma counted_workers:
  assumes inv: "Inv exec n new_stats s" and fin: "main s = Returned"
    and t: "TotalRequests (stats s) \<noteq> 0"
  shows "workers s \<noteq> []"
proof
  assume "workers s = []"
  with inv have "calls s = []" by (cases "calls s") (auto simp: Inv_def inv_ids_def)
  with finished_counts(1) [OF inv fin] t show False by (simp add: new_stats_def)
qed

text \<open>
  Claim C6, as amended. For every run that has returned with a total count above zero,
  whatever the schedule: the recorded minimum is at most, and the recorded maximum at
  least, the duration of every request; the minimum is the one-hour initial value or one
  of the durations, the maximum is 0 or one of the durations; the initial value of the
  minimum is replaced when a request shorter than one hour is recorded, and kept when
  every request takes an hour or more. For the durations 10 ms, 50 ms, 5 ms and 100 ms
  the minimum is 5 ms, the maximum 100 ms and the average 41.25 ms.
\<close>

theorem min_max_bounds:
  assumes ran: "runLoadTest lib exec config new_stats sched = Ran s"
    and fin: "main s = Returned"
    and t: "0 <s TotalRequests (stats s)"
  shows "(\<forall>j < nat (sint (NumRequests config)).
            MinDuration (stats s) \<le>s fst (exec j) \<and> fst (exec j) \<le>s MaxDuration (stats s)) \<and>
         (MinDuration (stats s) = Hour \<or>
            (\<exists>j < nat (sint (NumRequests config)). MinDuration (stats s) = fst (exec j))) \<and>
         (MaxDuration (stats s) = 0 \<or>
            (\<exists>j < nat (sint (NumRequests config)). MaxDuration (stats s) = fst (exec j))) \<and>
         ((\<exists>j < nat (sint (NumRequests config)). fst (exec j) <s Hour) \<longrightarrow>
            MinDuration (stats s) <s Hour \<and>
            (\<exists>j < nat (sint (NumRequests config)). MinDuration (stats s) = fst (exec j))) \<and>
         ((\<forall>j < nat (sint (NumRequests config)). Hour \<le>s fst (exec j)) \<longrightarrow>
            MinDuration (stats s) = Hour) \<and>
         (NumRequests config = 4 \<and> fst (exec 0) = 10 * Millisecond \<and>
          fst (exec 1) = 50 * Millisecond \<and> fst (exec 2) = 5 * Millisecond \<and>
          fst (exec 3) = 100 * Millisecond \<longrightarrow>
            MinDuration (stats s) = 5 * Millisecond \<and>
            MaxDuration (stats s) = 100 * Millisecond \<and>
            avgDuration (stats s) = Some 41250000)"
proof -
  let ?n = "nat (sint (NumRequests config))" and ?c = "nat (sint (Concurrency config))"
  from ran have pos: "\<not> NumRequests config <s 0"
    and s: "s = run exec ?n sched (start ?c new_stats)"
    by (simp_all add: ran_iff)
  have inv: "Inv exec ?n new_stats s" unfolding s by (rule Inv_reach)
  from t have "TotalRequests (stats s) \<noteq> 0" by auto
  with inv fin have ws: "workers s \<noteq> []" by (rule counted_workers)
  note mn = finished_min [OF inv fin ws] and mx = finished_max [OF inv fin ws]
  have mn_is: "MinDuration (stats s) = Hour \<or> (\<exists>j < ?n. MinDuration (stats s) = fst (exec j))"
    using finished_min_is [OF inv fin ws] by (simp add: new_stats_def)
  have mx_is: "MaxDuration (stats s) = 0 \<or> (\<exists>j < ?n. MaxDuration (stats s) = fst (exec j))"
    using finished_max_is [OF inv fin ws] by (simp add: new_stats_def)
  have short: "MinDuration (stats s) <s Hour \<and> (\<exists>j < ?n. MinDuration (stats s) = fst (exec j))"
    if "\<exists>j < ?n. fst (exec j) <s Hour"
  proof -
    from that obtain j where j: "j < ?n" "fst (exec j) <s Hour" by blast
    from mn [OF j(1)] j(2) have lt: "MinDuration (stats s) <s Hour"
      by (rule signed.le_less_trans)
    then have "MinDuration (stats s) \<noteq> Hour" by auto
    with mn_is lt show ?thesis by blast
  qed
  have long: "MinDuration (stats s) = Hour" if all: "\<forall>j < ?n. Hour \<le>s fst (exec j)"
  proof -
    from inv have le: "MinDuration (stats s) \<le>s Hour"
      by (simp add: Inv_def inv_mono_def new_stats_def)
    from mn_is show ?thesis
    proof
      assume "MinDuration (stats s) = Hour"
      then show ?thesis .
    next
      assume "\<exists>j < ?n. MinDuration (stats s) = fst (exec j)"
      then obtain j where "j < ?n" "MinDuration (stats s) = fst (exec j)" by blast
      with all have "Hour \<le>s MinDuration (stats s)" by simp
      with le show ?thesis by (rule signed.order_antisym)
    qed
  qed
  have scen: "MinDuration (stats s) = 5 * Millisecond \<and>
      MaxDuration (stats s) = 100 * Millisecond \<and> avgDuration (stats s) = Some 41250000"
    if n4: "NumRequests config = 4" and e: "fst (exec 0) = 10 * Millisecond"
      "fst (exec 1) = 50 * Millisecond" "fst (exec 2) = 5 * Millisecond"
      "fst (exec 3) = 100 * Millisecond"
  proof -
    from n4 have n: "?n = 4" by simp
    from e(2) have e1: "fst (exec (Suc 0)) = 50 * Millisecond" by simp
    have lt4: "j < 4 \<longleftrightarrow> j = 0 \<or> j = 1 \<or> j = 2 \<or> j = 3" for j :: nat by auto
    have "MinDuration (stats s) \<le>s 5 * Millisecond"
      using mn [of 2] by (simp add: n e)
    moreover have "MinDuration (stats s) \<in> {Hour, 10 * Millisecond, 50 * Millisecond,
        5 * Millisecond, 100 * Millisecond}"
      using mn_is e unfolding n lt4 by auto
    ultimately have a: "MinDuration (stats s) = 5 * Millisecond"
      by (auto simp: Hour_def Millisecond_def word_sle_eq)
    have "100 * Millisecond \<le>s MaxDuration (stats s)"
      using mx [of 3] by (simp add: n e)
    moreover have "MaxDuration (stats s) \<in> {0, 10 * Millisecond, 50 * Millisecond,
        5 * Millisecond, 100 * Millisecond}"
      using mx_is e unfolding n lt4 by auto
    ultimately have b: "MaxDuration (stats s) = 100 * Millisecond"
      by (auto simp: Millisecond_def word_sle_eq)
    have "TotalDuration (stats s) = 165 * Millisecond"
      using finished_duration [OF inv fin ws]
      by (simp add: n upt_4 e e1 new_stats_def Millisecond_def)
    moreover have "TotalRequests (stats s) = 4"
      using finished_totals(1) [OF inv fin, of ] ws by (simp add: n new_stats_def)
    ultimately have "avgDuration (stats s) = Some 41250000"
      by (simp add: avgDuration_def quo_def Millisecond_def)
    with a b show ?thesis by simp
  qed
  show ?thesis
  proof (intro conjI allI impI)
    show "MinDuration (stats s) \<le>s fst (exec j)" if "j < ?n" for j by (rule mn [OF that])
    show "fst (exec j) \<le>s MaxDuration (stats s)" if "j < ?n" for j by (rule mx [OF that])
    show "MinDuration (stats s) = Hour \<or> (\<exists>j < ?n. MinDuration (stats s) = fst (exec j))"
      by (rule mn_is)
    show "MaxDuration (stats s) = 0 \<or> (\<exists>j < ?n. MaxDuration (stats s) = fst (exec j))"
      by (rule mx_is)
  next
    assume h: "\<exists>j < ?n. fst (exec j) <s Hour"
    show "MinDuration (stats s) <s Hour" by (rule short [OF h, THEN conjunct1])
    show "\<exists>j < ?n. MinDuration (stats s) = fst (exec j)" by (rule short [OF h, THEN conjunct2])
  next
    assume "\<forall>j < ?n. Hour \<le>s fst (exec j)"
    then show "MinDuration (stats s) = Hour" by (rule long)
  next
    assume h: "NumRequests config = 4 \<and> fst (exec 0) = 10 * Millisecond \<and>
          fst (exec 1) = 50 * Millisecond \<and> fst (exec 2) = 5 * Millisecond \<and>
          fst (exec 3) = 100 * Millisecond"
    then have sc: "MinDuration (stats s) = 5 * Millisecond \<and>
      MaxDuration (stats s) = 100 * Millisecond \<and> avgDuration (stats s) = Some 41250000"
      using scen by blast
    show "MinDuration (stats s) = 5 * Millisecond" by (rule sc [THEN conjunct1])
    show "MaxDuration (stats s) = 100 * Millisecond"
      by (rule sc [THEN conjunct2, THEN conjunct1])
    show "avgDuration (stats s) = Some 41250000"
      by (rule sc [THEN conjunct2, THEN conjunct2])
  qed
qed

lemma ran_permissive:
  "\<not> n <s 0 \<Longrightarrow> unat n \<le> 2 ^ 20 \<Longrightarrow> c <s 2 ^ 31 \<Longrightarrow>
   runLoadTest permissive exec (sample_config n c) st sched
     = Ran (run exec (nat (sint n)) sched (start (nat (sint c)) st))"
  by (simp add: runLoadTest_def makechan_def sample_config_def createBaseRequest_def
      NewRequestWithContext_def permissive_def)

text \<open>The theorem at the four durations, with two workers.\<close>

theorem min_max_bounds_witness:
  "runLoadTest permissive four_durations (sample_config 4 2) new_stats (rounds 40)
     = Ran (run four_durations 4 (rounds 40) (start 2 new_stats)) \<and>
   main (run four_durations 4 (rounds 40) (start 2 new_stats)) = Returned \<and>
   0 <s TotalRequests (stats (run four_durations 4 (rounds 40) (start 2 new_stats))) \<and>
   MinDuration (stats (run four_durations 4 (rounds 40) (start 2 new_stats))) = 5000000 \<and>
   MaxDuration (stats (run four_durations 4 (rounds 40) (start 2 new_stats))) = 100000000 \<and>
   avgDuration (stats (run four_durations 4 (rounds 40) (start 2 new_stats))) = Some 41250000"
proof -
  have r: "runLoadTest permissive four_durations (sample_config 4 2) new_stats (rounds 40)
     = Ran (run four_durations 4 (rounds 40) (start 2 new_stats))"
    using ran_permissive [of 4 2 four_durations new_stats "rounds 40"]
    by (simp add: word_sless_alt)
  have f: "main (run four_durations 4 (rounds 40) (start 2 new_stats)) = Returned"
    by code_simp
  have "TotalRequests (stats (run four_durations 4 (rounds 40) (start 2 new_stats))) = 4"
    by code_simp
  then have c: "0 <s TotalRequests (stats (run four_durations 4 (rounds 40)
      (start 2 new_stats)))"
    by (simp add: word_sless_alt)
  have h: "NumRequests (sample_config 4 2) = 4 \<and> fst (four_durations 0) = 10 * Millisecond \<and>
          fst (four_durations 1) = 50 * Millisecond \<and> fst (four_durations 2) = 5 * Millisecond \<and>
          fst (four_durations 3) = 100 * Millisecond"
    by (simp add: sample_config_def four_durations_def)
  note t = min_max_bounds [OF r f c, THEN conjunct2, THEN conjunct2, THEN conjunct2, THEN conjunct2,
      THEN conjunct2, THEN mp, OF h]
  from t r f c show ?thesis by (simp add: Millisecond_def)
qed

text \<open>
  Claim C6 as stated fails in its clause that the first observation always replaces the
  initial value: with a timeout of three hours, one request that takes two hours is
  recorded and the minimum stays at one hour.
\<close>

theorem sentinel_kept_counterexample:
  "runLoadTest permissive (always (2 * Hour) (Some 200)) patient_config new_stats (solo 14)
     = Ran (run (always (2 * Hour) (Some 200)) 1 (solo 14) (start 1 new_stats)) \<and>
   main (run (always (2 * Hour) (Some 200)) 1 (solo 14) (start 1 new_stats)) = Returned \<and>
   TotalRequests (stats (run (always (2 * Hour) (Some 200)) 1 (solo 14) (start 1 new_stats))) = 1 \<and>
   fst (always (2 * Hour) (Some 200) 0) = 7200000000000 \<and>
   MinDuration (stats (run (always (2 * Hour) (Some 200)) 1 (solo 14) (start 1 new_stats)))
     = 3600000000000"
proof -
  have r: "runLoadTest permissive (always (2 * Hour) (Some 200)) patient_config new_stats
      (solo 14) = Ran (run (always (2 * Hour) (Some 200)) 1 (solo 14) (start 1 new_stats))"
    by (simp add: runLoadTest_def makechan_def patient_config_def createBaseRequest_def
        NewRequestWithContext_def permissive_def word_sless_alt)
  have f: "main (run (always (2 * Hour) (Some 200)) 1 (solo 14) (start 1 new_stats)) = Returned"
    by code_simp
  have t: "TotalRequests (stats (run (always (2 * Hour) (Some 200)) 1 (solo 14)
      (start 1 new_stats))) = 1"
    by code_simp
  have m: "MinDuration (stats (run (always (2 * Hour) (Some 200)) 1 (solo 14)
      (start 1 new_stats))) = 3600000000000"
    by code_simp
  have d: "fst (always (2 * Hour) (Some 200) 0) = 7200000000000"
    by (simp add: always_def Hour_def)
  from r f t d m show ?thesis by simp
qed

subsection \<open>C8: failure of the set-up\<close>

lemma isl_createBaseRequest:
  "isl (createBaseRequest lib config h) \<longleftrightarrow> rejects lib (Method config) (URL config)"
  by (simp add: createBaseRequest_def NewRequestWithContext_def Let_def split: option.splits)

lemma out_of_range_panics:
  assumes "NumRequests config <s 0 \<or>
           maxAlloc lib - hchanSize lib < 8 * unat (NumRequests config)"
  shows "runLoadTest lib exec config st sched = Panicked"
proof -
  from assms have "makechan lib 8 (NumRequests config) = OutOfRange"
    by (auto simp: makechan_def)
  then show ?thesis by (simp add: runLoadTest_def)
qed

lemma not_made_fatal:
  assumes "\<not> channels_made lib config"
  shows "runLoadTest lib exec config st sched = Panicked \<or>
         runLoadTest lib exec config st sched = Fatal"
  using assms
  by (cases "makechan lib 8 (NumRequests config)"; cases "makechan lib 1 (NumRequests config)")
    (simp_all add: runLoadTest_def channels_made_def)

lemma exited_iff:
  "runLoadTest lib exec config st sched = Exited c \<longleftrightarrow>
     c = 1 \<and> channels_made lib config \<and> isl (createBaseRequest lib config [])"
proof (cases "channels_made lib config")
  case True
  then show ?thesis
    by (cases "createBaseRequest lib config []")
      (auto simp: runLoadTest_def channels_made_def)
next
  case False
  then show ?thesis
    by (cases "makechan lib 8 (NumRequests config)"; cases "makechan lib 1 (NumRequests config)")
      (simp_all add: runLoadTest_def channels_made_def)
qed

lemma too_many_workers_panics:
  assumes "channels_made lib config" and "\<not> isl (createBaseRequest lib config [])"
    and "\<not> Concurrency config <s 2 ^ 31"
  shows "runLoadTest lib exec config st sched = Panicked"
  using assms
  by (cases "createBaseRequest lib config []") (auto simp: runLoadTest_def channels_made_def)

text \<open>
  Claim C8, as amended. \<^verbatim>\<open>createBaseRequest\<close> fails exactly when
  \<^verbatim>\<open>http.NewRequestWithContext\<close> rejects the method or the URL. When it fails,
  \<^verbatim>\<open>runLoadTest\<close> runs no goroutine for any schedule, so no worker starts, no request is
  sent and no statistics are produced, and the process exits with status 1 if the two
  channels were made. It is not the only fatal condition: the channels are made first,
  and \<^verbatim>\<open>make(chan int, n)\<close> panics when the number of requests is negative or its eight
  bytes each exceed the runtime's limit; whenever a channel is not made the run ends by
  that panic or by the fatal error of the allocator; and with the channels and the
  template made, a concurrency of \<open>2^31\<close> or more ends in the panic of \<^verbatim>\<open>wg.Add\<close>. Once
  the channels, the template and the workers are made, the run takes place and can
  always be continued until \<^verbatim>\<open>runLoadTest\<close> returns, whatever the results of the
  requests; and an exit status is only ever 1 and only ever comes from a failed
  construction of the template.
\<close>

theorem setup_failure:
  "(isl (createBaseRequest lib config []) \<longleftrightarrow> rejects lib (Method config) (URL config)) \<and>
   (isl (createBaseRequest lib config []) \<longrightarrow>
      (\<forall>s. runLoadTest lib exec config st sched \<noteq> Ran s) \<and>
      (channels_made lib config \<longrightarrow> runLoadTest lib exec config st sched = Exited 1)) \<and>
   (\<not> isl (createBaseRequest lib config []) \<and> channels_made lib config \<and>
    Concurrency config <s 2 ^ 31 \<longrightarrow>
      (\<exists>s. runLoadTest lib exec config st sched = Ran s) \<and>
      (\<exists>sched' s'. runLoadTest lib exec config st (sched @ sched') = Ran s' \<and>
         main s' = Returned)) \<and>
   (NumRequests config <s 0 \<or>
    maxAlloc lib - hchanSize lib < 8 * unat (NumRequests config) \<longrightarrow>
      runLoadTest lib exec config st sched = Panicked) \<and>
   (\<not> channels_made lib config \<longrightarrow>
      runLoadTest lib exec config st sched = Panicked \<or>
      runLoadTest lib exec config st sched = Fatal) \<and>
   (\<not> isl (createBaseRequest lib config []) \<and> channels_made lib config \<and>
    \<not> Concurrency config <s 2 ^ 31 \<longrightarrow>
      runLoadTest lib exec config st sched = Panicked) \<and>
   (\<forall>c. runLoadTest lib exec config st sched = Exited c \<longrightarrow>
      c = 1 \<and> channels_made lib config \<and> isl (createBaseRequest lib config []))"
proof (intro conjI impI allI)
  show "isl (createBaseRequest lib config []) \<longleftrightarrow> rejects lib (Method config) (URL config)"
    by (rule isl_createBaseRequest)
next
  fix s assume "isl (createBaseRequest lib config [])"
  then show "runLoadTest lib exec config st sched \<noteq> Ran s" by (simp add: ran_iff)
next
  assume "isl (createBaseRequest lib config [])" "channels_made lib config"
  then show "runLoadTest lib exec config st sched = Exited 1" by (simp add: exited_iff)
next
  assume a: "\<not> isl (createBaseRequest lib config []) \<and> channels_made lib config \<and>
    Concurrency config <s 2 ^ 31"
  then show "\<exists>s. runLoadTest lib exec config st sched = Ran s"
    using channels_made_nonneg [of lib config] by (simp add: ran_iff)
next
  assume a: "\<not> isl (createBaseRequest lib config []) \<and> channels_made lib config \<and>
    Concurrency config <s 2 ^ 31"
  obtain sched' where "main (run exec (nat (sint (NumRequests config))) (sched @ sched')
      (start (nat (sint (Concurrency config))) st)) = Returned"
    using can_finish_run by blast
  moreover have "runLoadTest lib exec config st (sched @ sched')
      = Ran (run exec (nat (sint (NumRequests config))) (sched @ sched')
          (start (nat (sint (Concurrency config))) st))"
    using a channels_made_nonneg [of lib config] by (simp add: ran_iff)
  ultimately show "\<exists>sched' s'. runLoadTest lib exec config st (sched @ sched') = Ran s' \<and>
      main s' = Returned" by blast
next
  assume "NumRequests config <s 0 \<or>
    maxAlloc lib - hchanSize lib < 8 * unat (NumRequests config)"
  then show "runLoadTest lib exec config st sched = Panicked" by (rule out_of_range_panics)
next
  assume "\<not> channels_made lib config"
  then show "runLoadTest lib exec config st sched = Panicked \<or>
      runLoadTest lib exec config st sched = Fatal" by (rule not_made_fatal)
next
  assume "\<not> isl (createBaseRequest lib config []) \<and> channels_made lib config \<and>
    \<not> Concurrency config <s 2 ^ 31"
  then show "runLoadTest lib exec config st sched = Panicked"
    by (simp add: too_many_workers_panics)
next
  fix c assume "runLoadTest lib exec config st sched = Exited c"
  then show "c = 1" "channels_made lib config" "isl (createBaseRequest lib config [])"
    by (simp_all add: exited_iff)
qed

text \<open>
  The theorem at a rejected URL, at an accepted one, at a negative count, and at a
  concurrency of \<open>2^31\<close>.
\<close>

theorem setup_failure_witness:
  "isl (createBaseRequest strict (sample_config 100 10) []) \<and>
   channels_made strict (sample_config 100 10) \<and>
   runLoadTest strict (always 0 None) (sample_config 100 10) new_stats (rounds 40) = Exited 1 \<and>
   \<not> isl (createBaseRequest permissive (sample_config 100 10) []) \<and>
   channels_made permissive (sample_config 100 10) \<and>
   (\<exists>s. runLoadTest permissive (always 0 None) (sample_config 100 10) new_stats (rounds 40)
      = Ran s) \<and>
   NumRequests (sample_config (- 1) 10) <s 0 \<and>
   runLoadTest permissive (always 0 None) (sample_config (- 1) 10) new_stats (rounds 40)
     = Panicked \<and>
   \<not> Concurrency (sample_config 100 (2 ^ 31)) <s 2 ^ 31 \<and>
   runLoadTest permissive (always 0 None) (sample_config 100 (2 ^ 31)) new_stats (rounds 40)
     = Panicked"
proof -
  have a: "isl (createBaseRequest strict (sample_config 100 10) [])"
    by (simp add: isl_createBaseRequest strict_def)
  have b: "channels_made strict (sample_config 100 10)"
    by (simp add: channels_made_def makechan_def sample_config_def strict_def word_sless_alt)
  have b': "channels_made permissive (sample_config 100 10)"
    by (simp add: channels_made_def makechan_def sample_config_def permissive_def
        word_sless_alt)
  have c: "\<not> isl (createBaseRequest permissive (sample_config 100 10) [])"
    by (simp add: isl_createBaseRequest permissive_def)
  have d: "NumRequests (sample_config (- 1) 10) <s 0"
    by (simp add: sample_config_def word_sless_alt)
  have w: "Concurrency (sample_config 100 10) <s 2 ^ 31"
    by (simp add: sample_config_def word_sless_alt)
  note t1 = setup_failure [of strict "sample_config 100 10" "always 0 None" new_stats "rounds 40"]
  note t2 = setup_failure [of permissive "sample_config 100 10" "always 0 None" new_stats "rounds 40"]
  note t3 = setup_failure [of permissive "sample_config (- 1) 10" "always 0 None" new_stats "rounds 40"]
  from t1 a b have e1: "runLoadTest strict (always 0 None) (sample_config 100 10) new_stats
      (rounds 40) = Exited 1" by blast
  from t2 b' c w have e2: "\<exists>s. runLoadTest permissive (always 0 None) (sample_config 100 10)
      new_stats (rounds 40) = Ran s" by blast
  from t3 d have e3: "runLoadTest permissive (always 0 None) (sample_config (- 1) 10) new_stats
      (rounds 40) = Panicked" by blast
  have b'': "channels_made permissive (sample_config 100 (2 ^ 31))"
    by (simp add: channels_made_def makechan_def sample_config_def permissive_def
        word_sless_alt)
  have c': "\<not> isl (createBaseRequest permissive (sample_config 100 (2 ^ 31)) [])"
    by (simp add: isl_createBaseRequest permissive_def)
  have w': "\<not> Concurrency (sample_config 100 (2 ^ 31)) <s 2 ^ 31"
    by (simp add: sample_config_def word_sless_alt)
  note t4 = setup_failure [of permissive "sample_config 100 (2 ^ 31)" "always 0 None" new_stats
      "rounds 40"]
  from t4 b'' c' w' have e4: "runLoadTest permissive (always 0 None)
      (sample_config 100 (2 ^ 31)) new_stats (rounds 40) = Panicked" by blast
  from a b b' c d e1 e2 e3 w' e4 show ?thesis by blast
qed

text \<open>
  Claim C8 as stated fails in its clause that a failed construction of the template is
  the only fatal condition: with \<^verbatim>\<open>-n -1\<close>, and with \<^verbatim>\<open>-n 35184372088832\<close> on a
  platform whose \<^verbatim>\<open>maxAlloc\<close> is \<open>2^48\<close>, the template is constructible and
  \<^verbatim>\<open>runLoadTest\<close> panics.
\<close>

theorem channel_size_counterexample:
  "\<not> isl (createBaseRequest permissive (sample_config (- 1) 10) []) \<and>
   runLoadTest permissive (always 0 None) (sample_config (- 1) 10) new_stats [] = Panicked \<and>
   \<not> isl (createBaseRequest permissive (sample_config (2 ^ 45) 10) []) \<and>
   runLoadTest permissive (always 0 None) (sample_config (2 ^ 45) 10) new_stats [] = Panicked"
  by (simp add: isl_createBaseRequest permissive_def runLoadTest_def makechan_def
      sample_config_def word_sless_alt)

subsection \<open>C7: a failed request does not end the run\<close>

lemma failures_length:
  assumes "mset (map snd cs) = mset [0..<n]"
  shows "length (failures exec cs) = length (filter (\<lambda>j. snd (exec j) = None) [0..<n])"
proof -
  have "length (failures exec cs) = length (filter (\<lambda>j. snd (exec j) = None) (map snd cs))"
    by (simp add: failures_def filter_map comp_def)
  also have "\<dots> = size (filter_mset (\<lambda>j. snd (exec j) = None) (mset (map snd cs)))"
    by (simp only: size_mset flip: mset_filter)
  also have "\<dots> = size (filter_mset (\<lambda>j. snd (exec j) = None) (mset [0..<n]))"
    by (simp only: assms)
  also have "\<dots> = length (filter (\<lambda>j. snd (exec j) = None) [0..<n])"
    by (simp only: size_mset flip: mset_filter)
  finally show ?thesis .
qed

lemma failed_step:
  assumes w: "w < length (workers s)" and pc: "pc (workers s ! w) = CheckErr"
    and r: "resp (workers s ! w) = None"
  shows "worker_step exec n w s
    = Some (s\<lparr>stats := (stats s)\<lparr>FailedRequests := FailedRequests (stats s) + 1\<rparr>,
              workers := (workers s)[w := (workers s ! w)\<lparr>pc := SendResult\<rparr>]\<rparr>)"
  using assms by (simp add: worker_step_def worker_op_def sendRequest_step_def)

lemma send_result_step:
  assumes w: "w < length (workers s)" and pc: "pc (workers s ! w) = SendResult"
    and r: "results s < n"
  shows "worker_step exec n w s
    = Some (s\<lparr>results := Suc (results s),
              workers := (workers s)[w := (workers s ! w)\<lparr>pc := Recv\<rparr>]\<rparr>)"
  using assms by (simp add: worker_step_def worker_op_def)

lemma worker_step_to_Done:
  assumes "worker_step exec n w s = Some s'" and "pc (workers s' ! w) = Done"
  shows "pc (workers s ! w) = Recv \<and> jobs s = [] \<and> jobs_closed s"
proof -
  from assms(1) obtain k' s1 where w: "w < length (workers s)"
    and op: "worker_op exec n w (workers s ! w) s = Some (k', s1)"
    and s': "s' = s1\<lparr>workers := (workers s)[w := k']\<rparr>"
    by (rule worker_stepE)
  from assms(2) w have "pc k' = Done" by (simp add: s')
  with worker_op_to_Done [OF op] show ?thesis by simp
qed

lemma failure_recorded:
  assumes inv: "Inv exec n st0 s" and w: "w < length (workers s)"
    and pc: "pc (workers s ! w) = CheckErr" and r: "resp (workers s ! w) = None"
  shows "\<exists>s'. worker_step exec n w s = Some s' \<and>
           stats s' = (stats s)\<lparr>FailedRequests := FailedRequests (stats s) + 1\<rparr> \<and>
           pc (workers s' ! w) = SendResult \<and> main s' = main s \<and>
           (\<exists>s''. worker_step exec n w s' = Some s'' \<and> pc (workers s'' ! w) = Recv \<and>
              stats s'' = stats s' \<and> main s'' = main s)"
proof -
  let ?s' = "s\<lparr>stats := (stats s)\<lparr>FailedRequests := FailedRequests (stats s) + 1\<rparr>,
              workers := (workers s)[w := (workers s ! w)\<lparr>pc := SendResult\<rparr>]\<rparr>"
  have st: "worker_step exec n w s = Some ?s'" by (rule failed_step [OF w pc r])
  have inv': "Inv exec n st0 ?s'" by (rule Inv_worker [OF st inv])
  have w': "w < length (workers ?s')" using w by simp
  have pc': "pc (workers ?s' ! w) = SendResult" using w by simp
  have res: "results ?s' < n" by (rule busy_results [OF inv' w' pc'])
  let ?s'' = "?s'\<lparr>results := Suc (results ?s'),
              workers := (workers ?s')[w := (workers ?s' ! w)\<lparr>pc := Recv\<rparr>]\<rparr>"
  have st': "worker_step exec n w ?s' = Some ?s''" by (rule send_result_step [OF w' pc' res])
  have "pc (workers ?s'' ! w) = Recv \<and> stats ?s'' = stats ?s' \<and> main ?s'' = main s"
    using w by simp
  with st' have "\<exists>s''. worker_step exec n w ?s' = Some s'' \<and> pc (workers s'' ! w) = Recv \<and>
      stats s'' = stats ?s' \<and> main s'' = main s" by blast
  moreover have "stats ?s' = (stats s)\<lparr>FailedRequests := FailedRequests (stats s) + 1\<rparr>"
    "main ?s' = main s" by simp_all
  ultimately show ?thesis using st pc' by blast
qed

lemma Inv_codes: "Inv exec n st0 s \<Longrightarrow> inv_codes exec st0 s"
  by (simp add: Inv_def)

lemma finished_all_failed:
  assumes inv: "Inv exec n new_stats s" and fin: "main s = Returned" and ws: "workers s \<noteq> []"
    and all: "\<forall>j<n. snd (exec j) = None"
  shows "SuccessfulRequests (stats s) = 0" and "StatusCodes (stats s) = []"
proof -
  have none: "snd (exec (snd c)) = None" if "c \<in> set (calls s)" for c
  proof -
    from that finished_set_calls [OF inv fin ws] have "snd c < n" by force
    with all show ?thesis by simp
  qed
  then have "responses exec (calls s) = []" by (simp add: responses_def)
  with finished_counts(3) [OF inv fin] show "SuccessfulRequests (stats s) = 0"
    by (simp add: new_stats_def)
  from Inv_codes [OF inv] have "\<forall>code \<in> set (map fst (StatusCodes (stats s))).
        code \<in> set (map fst (StatusCodes new_stats)) \<or>
        (\<exists>c \<in> set (calls s). snd (exec (snd c)) = Some code)"
    by (simp only: inv_codes_def)
  with none have "set (map fst (StatusCodes (stats s))) = {}"
    by (auto simp: new_stats_def)
  then show "StatusCodes (stats s) = []" by simp
qed

text \<open>
  Claim C7. In every state of every run, a worker whose request failed (line 256) adds
  one to the failed count and changes nothing else in the statistics, the main goroutine
  goes on, and the worker's next operation sends the result and takes it back to the
  receive of line 215; a worker becomes done only from that receive, when the channel of
  jobs is closed and empty; every run can be continued until \<^verbatim>\<open>runLoadTest\<close> returns;
  and when it has returned, with at least one worker, all \<open>N\<close> requests are counted and
  the failed count is the number of requests that failed. If all fail, the failed count
  is \<open>N\<close>, the successful count is 0 and the histogram is empty.
\<close>

theorem failure_absorbed:
  assumes ran: "runLoadTest lib exec config new_stats sched = Ran s"
  shows "(\<forall>w < length (workers s).
            pc (workers s ! w) = CheckErr \<and> resp (workers s ! w) = None \<longrightarrow>
            (\<exists>s'. worker_step exec (nat (sint (NumRequests config))) w s = Some s' \<and>
               stats s' = (stats s)\<lparr>FailedRequests := FailedRequests (stats s) + 1\<rparr> \<and>
               pc (workers s' ! w) = SendResult \<and> main s' = main s \<and>
               (\<exists>s''. worker_step exec (nat (sint (NumRequests config))) w s' = Some s'' \<and>
                  pc (workers s'' ! w) = Recv \<and> stats s'' = stats s' \<and> main s'' = main s))) \<and>
         (\<forall>w s'. worker_step exec (nat (sint (NumRequests config))) w s = Some s' \<and>
            pc (workers s' ! w) = Done \<longrightarrow>
            pc (workers s ! w) = Recv \<and> jobs s = [] \<and> jobs_closed s) \<and>
         (\<exists>sched' s'. runLoadTest lib exec config new_stats (sched @ sched') = Ran s' \<and>
            main s' = Returned) \<and>
         (main s = Returned \<and> 0 <s Concurrency config \<longrightarrow>
            TotalRequests (stats s) = NumRequests config \<and>
            FailedRequests (stats s)
              = of_nat (length (filter (\<lambda>j. snd (exec j) = None)
                  [0..<nat (sint (NumRequests config))])) \<and>
            ((\<forall>j < nat (sint (NumRequests config)). snd (exec j) = None) \<longrightarrow>
               FailedRequests (stats s) = NumRequests config \<and>
               SuccessfulRequests (stats s) = 0 \<and> StatusCodes (stats s) = []))"
proof -
  let ?n = "nat (sint (NumRequests config))" and ?c = "nat (sint (Concurrency config))"
  from ran have mk: "channels_made lib config" "Concurrency config <s 2 ^ 31"
    by (simp_all add: ran_iff)
  from ran have pos: "\<not> NumRequests config <s 0"
    and ok: "\<not> isl (createBaseRequest lib config [])"
    and s: "s = run exec ?n sched (start ?c new_stats)"
    by (simp_all add: ran_iff)
  have inv: "Inv exec ?n new_stats s" unfolding s by (rule Inv_reach)
  have len: "length (workers s) = ?c" by (simp add: s run_length_workers start_def)
  have n: "of_nat ?n = NumRequests config" by (rule of_nat_nat_sint [OF pos])
  have a: "\<forall>w < length (workers s).
            pc (workers s ! w) = CheckErr \<and> resp (workers s ! w) = None \<longrightarrow>
            (\<exists>s'. worker_step exec ?n w s = Some s' \<and>
               stats s' = (stats s)\<lparr>FailedRequests := FailedRequests (stats s) + 1\<rparr> \<and>
               pc (workers s' ! w) = SendResult \<and> main s' = main s \<and>
               (\<exists>s''. worker_step exec ?n w s' = Some s'' \<and>
                  pc (workers s'' ! w) = Recv \<and> stats s'' = stats s' \<and> main s'' = main s))"
    using failure_recorded [OF inv] by blast
  have b: "\<forall>w s'. worker_step exec ?n w s = Some s' \<and> pc (workers s' ! w) = Done \<longrightarrow>
            pc (workers s ! w) = Recv \<and> jobs s = [] \<and> jobs_closed s"
    using worker_step_to_Done by blast
  obtain sched' where "main (run exec ?n (sched @ sched') (start ?c new_stats)) = Returned"
    using can_finish_run by blast
  moreover have "runLoadTest lib exec config new_stats (sched @ sched')
      = Ran (run exec ?n (sched @ sched') (start ?c new_stats))"
    using pos ok mk by (simp add: ran_iff)
  ultimately have d: "\<exists>sched' s'. runLoadTest lib exec config new_stats (sched @ sched') = Ran s'
      \<and> main s' = Returned"
    by blast
  have e: "TotalRequests (stats s) = NumRequests config \<and>
            FailedRequests (stats s)
              = of_nat (length (filter (\<lambda>j. snd (exec j) = None) [0..<?n])) \<and>
            ((\<forall>j < ?n. snd (exec j) = None) \<longrightarrow>
               FailedRequests (stats s) = NumRequests config \<and>
               SuccessfulRequests (stats s) = 0 \<and> StatusCodes (stats s) = [])"
    if fc: "main s = Returned \<and> 0 <s Concurrency config"
  proof -
    from fc have fin: "main s = Returned" and c: "0 <s Concurrency config" by simp_all
    from c len have ws: "workers s \<noteq> []" by (auto simp: word_sless_alt)
    have tot: "TotalRequests (stats s) = NumRequests config"
      using finished_totals(1) [OF inv fin] ws by (simp add: n new_stats_def)
    have fl: "FailedRequests (stats s)
        = of_nat (length (filter (\<lambda>j. snd (exec j) = None) [0..<?n]))"
      using finished_counts(4) [OF inv fin] failures_length [OF finished_calls [OF inv fin ws]]
      by (simp add: new_stats_def)
    have af: "FailedRequests (stats s) = NumRequests config \<and>
        SuccessfulRequests (stats s) = 0 \<and> StatusCodes (stats s) = []"
      if all: "\<forall>j < ?n. snd (exec j) = None"
    proof -
      from all have "filter (\<lambda>j. snd (exec j) = None) [0..<?n] = [0..<?n]"
        by (simp add: filter_id_conv)
      with fl have "FailedRequests (stats s) = NumRequests config" by (simp add: n)
      with finished_all_failed [OF inv fin ws all] show ?thesis by simp
    qed
    from tot fl af show ?thesis by blast
  qed
  show ?thesis
  proof (intro conjI)
    show "\<forall>w < length (workers s).
            pc (workers s ! w) = CheckErr \<and> resp (workers s ! w) = None \<longrightarrow>
            (\<exists>s'. worker_step exec ?n w s = Some s' \<and>
               stats s' = (stats s)\<lparr>FailedRequests := FailedRequests (stats s) + 1\<rparr> \<and>
               pc (workers s' ! w) = SendResult \<and> main s' = main s \<and>
               (\<exists>s''. worker_step exec ?n w s' = Some s'' \<and>
                  pc (workers s'' ! w) = Recv \<and> stats s'' = stats s' \<and> main s'' = main s))"
      by (rule a)
    show "\<forall>w s'. worker_step exec ?n w s = Some s' \<and> pc (workers s' ! w) = Done \<longrightarrow>
            pc (workers s ! w) = Recv \<and> jobs s = [] \<and> jobs_closed s" by (rule b)
    show "\<exists>sched' s'. runLoadTest lib exec config new_stats (sched @ sched') = Ran s' \<and>
            main s' = Returned" by (rule d)
    show "main s = Returned \<and> 0 <s Concurrency config \<longrightarrow>
            TotalRequests (stats s) = NumRequests config \<and>
            FailedRequests (stats s)
              = of_nat (length (filter (\<lambda>j. snd (exec j) = None) [0..<?n])) \<and>
            ((\<forall>j < ?n. snd (exec j) = None) \<longrightarrow>
               FailedRequests (stats s) = NumRequests config \<and>
               SuccessfulRequests (stats s) = 0 \<and> StatusCodes (stats s) = [])"
      using e by (rule impI)
  qed
qed

text \<open>The theorem at three requests that all time out, with two workers.\<close>

theorem failure_absorbed_witness:
  "runLoadTest permissive (always (30 * Second) None) (sample_config 3 2) new_stats (rounds 30)
     = Ran (run (always (30 * Second) None) 3 (rounds 30) (start 2 new_stats)) \<and>
   main (run (always (30 * Second) None) 3 (rounds 30) (start 2 new_stats)) = Returned \<and>
   0 <s Concurrency (sample_config 3 2) \<and>
   TotalRequests (stats (run (always (30 * Second) None) 3 (rounds 30) (start 2 new_stats))) = 3 \<and>
   FailedRequests (stats (run (always (30 * Second) None) 3 (rounds 30) (start 2 new_stats))) = 3 \<and>
   SuccessfulRequests (stats (run (always (30 * Second) None) 3 (rounds 30)
     (start 2 new_stats))) = 0 \<and>
   StatusCodes (stats (run (always (30 * Second) None) 3 (rounds 30) (start 2 new_stats))) = []"
proof -
  have r: "runLoadTest permissive (always (30 * Second) None) (sample_config 3 2) new_stats
      (rounds 30) = Ran (run (always (30 * Second) None) 3 (rounds 30) (start 2 new_stats))"
    using ran_permissive [of 3 2 "always (30 * Second) None" new_stats "rounds 30"]
    by (simp add: word_sless_alt)
  have f: "main (run (always (30 * Second) None) 3 (rounds 30) (start 2 new_stats)) = Returned"
    by code_simp
  have c: "0 <s Concurrency (sample_config 3 2)"
    by (simp add: sample_config_def word_sless_alt)
  have n: "NumRequests (sample_config 3 2) = 3" by (simp add: sample_config_def)
  have all: "\<forall>j < nat (sint (NumRequests (sample_config 3 2))).
      snd (always (30 * Second) None j) = None"
    by (simp add: always_def)
  note t = failure_absorbed [OF r, THEN conjunct2, THEN conjunct2, THEN conjunct2, THEN mp, OF conjI [OF f c]]
  note u = t [THEN conjunct2, THEN conjunct2, THEN mp, OF all]
  from t u r f c show ?thesis by (simp add: n)
qed

subsection \<open>C2, C3, C4: the histogram of status codes\<close>

text \<open>
  Claim C2 does not hold of the code. Lines 272-276 read the bucket with \<^verbatim>\<open>Load\<close> and
  write it with \<^verbatim>\<open>Store\<close>, two operations; when two workers both read before either
  writes, one increment is lost. Here two requests are answered 204 and both are counted
  as successful, and the buckets sum to 1.
\<close>

theorem histogram_lost_update:
  "runLoadTest permissive (always (5 * Millisecond) (Some 204)) (sample_config 2 2) new_stats
      lockstep
     = Ran (run (always (5 * Millisecond) (Some 204)) 2 lockstep (start 2 new_stats)) \<and>
   main (run (always (5 * Millisecond) (Some 204)) 2 lockstep (start 2 new_stats)) = Returned \<and>
   SuccessfulRequests (stats (run (always (5 * Millisecond) (Some 204)) 2 lockstep
     (start 2 new_stats))) = 2 \<and>
   bucket_sum (StatusCodes (stats (run (always (5 * Millisecond) (Some 204)) 2 lockstep
     (start 2 new_stats)))) = 1"
proof -
  have r: "runLoadTest permissive (always (5 * Millisecond) (Some 204)) (sample_config 2 2)
      new_stats lockstep
     = Ran (run (always (5 * Millisecond) (Some 204)) 2 lockstep (start 2 new_stats))"
    using ran_permissive [of 2 2 "always (5 * Millisecond) (Some 204)" new_stats lockstep]
    by (simp add: word_sless_alt)
  have f: "main (run (always (5 * Millisecond) (Some 204)) 2 lockstep (start 2 new_stats))
      = Returned"
    by code_simp
  have a: "SuccessfulRequests (stats (run (always (5 * Millisecond) (Some 204)) 2 lockstep
     (start 2 new_stats))) = 2"
    by code_simp
  have b: "bucket_sum (StatusCodes (stats (run (always (5 * Millisecond) (Some 204)) 2 lockstep
     (start 2 new_stats)))) = 1"
    by code_simp
  from r f a b show ?thesis by simp
qed

text \<open>
  Total, successful and failed count and cumulative duration of a run that has returned
  are determined by the results of the requests alone, whatever the schedule.
\<close>

lemma responses_length:
  assumes "mset (map snd cs) = mset [0..<n]"
  shows "length (responses exec cs) = length (filter (\<lambda>j. snd (exec j) \<noteq> None) [0..<n])"
proof -
  have "length (responses exec cs)
      = length (filter (\<lambda>j. snd (exec j) \<noteq> None) (map snd cs))"
    by (simp add: responses_def filter_map comp_def)
  also have "\<dots> = size (filter_mset (\<lambda>j. snd (exec j) \<noteq> None) (mset (map snd cs)))"
    by (simp only: size_mset flip: mset_filter)
  also have "\<dots> = size (filter_mset (\<lambda>j. snd (exec j) \<noteq> None) (mset [0..<n]))"
    by (simp only: assms)
  also have "\<dots> = length (filter (\<lambda>j. snd (exec j) \<noteq> None) [0..<n])"
    by (simp only: size_mset flip: mset_filter)
  finally show ?thesis .
qed

lemma counters_determined:
  assumes inv: "Inv exec n new_stats s" and fin: "main s = Returned" and ws: "workers s \<noteq> []"
  shows "TotalRequests (stats s) = of_nat n"
    and "SuccessfulRequests (stats s)
      = of_nat (length (filter (\<lambda>j. snd (exec j) \<noteq> None) [0..<n]))"
    and "FailedRequests (stats s)
      = of_nat (length (filter (\<lambda>j. snd (exec j) = None) [0..<n]))"
    and "TotalDuration (stats s) = sum_list (map (\<lambda>j. fst (exec j)) [0..<n])"
proof -
  note m = finished_calls [OF inv fin ws]
  show "TotalRequests (stats s) = of_nat n"
    using finished_totals(1) [OF inv fin] ws by (simp add: new_stats_def)
  show "SuccessfulRequests (stats s)
      = of_nat (length (filter (\<lambda>j. snd (exec j) \<noteq> None) [0..<n]))"
    using finished_counts(3) [OF inv fin] responses_length [OF m]
    by (simp add: new_stats_def)
  show "FailedRequests (stats s)
      = of_nat (length (filter (\<lambda>j. snd (exec j) = None) [0..<n]))"
    using finished_counts(4) [OF inv fin] failures_length [OF m]
    by (simp add: new_stats_def)
  show "TotalDuration (stats s) = sum_list (map (\<lambda>j. fst (exec j)) [0..<n])"
    using finished_duration [OF inv fin ws] by (simp add: new_stats_def)
qed

text \<open>
  Claim C3 does not hold of the code, by the same defect: for the same two requests
  answered 200, the bucket of 200 is 1 after the run of two workers in lockstep and 2
  after the run of one worker.
\<close>

theorem histogram_not_serial:
  "main (run (always (5 * Millisecond) (Some 200)) 2 lockstep (start 2 new_stats)) = Returned \<and>
   main (run (always (5 * Millisecond) (Some 200)) 2 (solo 28) (start 1 new_stats)) = Returned \<and>
   StatusCodes (stats (run (always (5 * Millisecond) (Some 200)) 2 lockstep (start 2 new_stats)))
     = [(200, 1)] \<and>
   StatusCodes (stats (run (always (5 * Millisecond) (Some 200)) 2 (solo 28) (start 1 new_stats)))
     = [(200, 2)]"
proof -
  have a: "main (run (always (5 * Millisecond) (Some 200)) 2 lockstep (start 2 new_stats))
      = Returned"
    by code_simp
  have b: "main (run (always (5 * Millisecond) (Some 200)) 2 (solo 28) (start 1 new_stats))
      = Returned"
    by code_simp
  have c: "StatusCodes (stats (run (always (5 * Millisecond) (Some 200)) 2 lockstep
      (start 2 new_stats))) = [(200, 1)]"
    by code_simp
  have d: "StatusCodes (stats (run (always (5 * Millisecond) (Some 200)) 2 (solo 28)
      (start 1 new_stats))) = [(200, 2)]"
    by code_simp
  from a b c d show ?thesis by simp
qed

text \<open>
  Claim C4 does not hold of the code in its clause on the bucket, by the same defect: two
  requests answered 500 are both counted as successful and none as failed, and the
  bucket of 500 is 1.
\<close>

theorem server_error_bucket_lost:
  "main (run (always (5 * Millisecond) (Some 500)) 2 lockstep (start 2 new_stats)) = Returned \<and>
   SuccessfulRequests (stats (run (always (5 * Millisecond) (Some 500)) 2 lockstep
     (start 2 new_stats))) = 2 \<and>
   FailedRequests (stats (run (always (5 * Millisecond) (Some 500)) 2 lockstep
     (start 2 new_stats))) = 0 \<and>
   Load (StatusCodes (stats (run (always (5 * Millisecond) (Some 500)) 2 lockstep
     (start 2 new_stats)))) 500 = Some 1"
proof -
  have a: "main (run (always (5 * Millisecond) (Some 500)) 2 lockstep (start 2 new_stats))
      = Returned"
    by code_simp
  have b: "SuccessfulRequests (stats (run (always (5 * Millisecond) (Some 500)) 2 lockstep
     (start 2 new_stats))) = 2"
    by code_simp
  have c: "FailedRequests (stats (run (always (5 * Millisecond) (Some 500)) 2 lockstep
     (start 2 new_stats))) = 0"
    by code_simp
  have d: "Load (StatusCodes (stats (run (always (5 * Millisecond) (Some 500)) 2 lockstep
     (start 2 new_stats)))) 500 = Some 1"
    by code_simp
  from a b c d show ?thesis by simp
qed

subsection \<open>C9: the clone of the template\<close>

text \<open>
  Claim C9 does not hold of the code when the template has a body. The clone of line 223
  has the body reader of the template (and its \<^verbatim>\<open>GetBody\<close> and \<^verbatim>\<open>ContentLength\<close>), and
  the first request written reads that reader to the end. With keep-alives disabled
  every call of \<^verbatim>\<open>client.Do\<close> writes on a connection just dialled, where the transport
  does not try again: of the four requests of the configuration the first sends \<open>{}\<close>,
  and each of the others finds the reader empty and fails, with the error that two
  bytes were announced and none read. On a reused connection (keep-alives enabled, one
  worker, two requests) the transport takes a new body from \<^verbatim>\<open>GetBody\<close> and the second
  request sends \<open>{}\<close> as well.
\<close>

theorem clone_shares_body:
  "(case createBaseRequest permissive post_config [] of
      Inl err \<Rightarrow> False
    | Inr (baseReq, h) \<Rightarrow>
        req_Body (Clone baseReq) = req_Body baseReq \<and> req_Body baseReq = Some 0 \<and>
        req_GetBody (Clone baseReq) = Some ''{}'' \<and>
        req_ContentLength (Clone baseReq) = 2 \<and>
        h = [Body post_config] \<and>
        fst (roundTrip [False] (Clone baseReq) h) = Inr ''{}'') \<and>
   DisableKeepAlives (client_Transport (createHTTPClient post_config)) \<and>
   send_all permissive post_config [[False], [False], [False], [False]]
     = Some [Inr ''{}'', Inl (BodyLengthError 2 0), Inl (BodyLengthError 2 0),
             Inl (BodyLengthError 2 0)] \<and>
   send_all permissive (post_config\<lparr>NumRequests := 2, Concurrency := 1, KeepAlive := True\<rparr>)
     [[False], [True, False]] = Some [Inr ''{}'', Inr ''{}'']"
  by (simp add: createBaseRequest_def NewRequestWithContext_def permissive_def post_config_def
      Clone_def send_all_def write_request_def rewindBody_def outgoingLength_def
      createHTTPClient_def Header_Set_def HasPrefix1_def)

subsection \<open>The histogram with a single worker\<close>

text \<open>
  With one worker the histogram is exact: the defect needs two workers.
\<close>

lemma bucket_sum_Store:
  "bucket_sum (Store m code (case Load m code of None \<Rightarrow> 1 | Some cnt \<Rightarrow> cnt + 1))
     = bucket_sum m + 1"
  by (induction m) (auto simp: bucket_sum_def Store_def Load_def)

lemma linv_code:
  assumes "linv exec s k" and "pc k = StoreCode code l \<or> pc k = LoadCode code"
  shows "resp k = Some code"
  using assms by (auto simp: linv_def)

lemma single_op:
  assumes op: "worker_op exec n w k s = Some (k', s1)" and l: "linv exec s k"
    and f: "fresh (stats s) k"
    and b: "bucket_sum (StatusCodes (stats s)) + owes_bucket k
      = bucket_sum (StatusCodes st0) + of_nat (length (responses exec (calls s)))"
  shows "fresh (stats s1) k'"
    and "bucket_sum (StatusCodes (stats s1)) + owes_bucket k'
      = bucket_sum (StatusCodes st0) + of_nat (length (responses exec (calls s1)))"
proof -
  show "fresh (stats s1) k'"
    using op by (cases rule: worker_op_cases) (simp_all add: fresh_def)
  show "bucket_sum (StatusCodes (stats s1)) + owes_bucket k'
      = bucket_sum (StatusCodes st0) + of_nat (length (responses exec (calls s1)))"
    using op
  proof (cases rule: worker_op_cases)
    case (store_code code loaded)
    from f store_code(1) have "loaded = Load (StatusCodes (stats s)) code"
      by (simp add: fresh_def)
    then have "bucket_sum (StatusCodes (stats s1)) = bucket_sum (StatusCodes (stats s)) + 1"
      by (simp add: store_code(3) bucket_sum_Store)
    moreover from linv_code [OF l] store_code(1) have "owes_bucket k = 1"
      by (simp add: owes_bucket_def)
    moreover have "owes_bucket k' = 0" by (simp add: store_code(2) owes_bucket_def)
    moreover have "calls s1 = calls s" by (simp add: store_code(3))
    ultimately show ?thesis using b by simp
  next
    case (load_code code)
    with linv_code [OF l] b show ?thesis by (simp add: owes_bucket_def)
  qed (use b in \<open>simp_all add: owes_bucket_def responses_def\<close>)
qed

lemma inv_single_step:
  assumes step: "step exec n t s = Some s'" and inv: "inv_single exec st0 s"
    and loc: "inv_local exec s"
  shows "inv_single exec st0 s'"
proof (cases t)
  case Main
  with step have "main_step n s = Some s'" by simp
  from main_step_frame [OF this] inv show ?thesis by (simp add: inv_single_def)
next
  case Waiter
  with step have "waiter_step s = Some s'" by simp
  from waiter_step_frame [OF this] inv show ?thesis by (simp add: inv_single_def)
next
  case (Worker w)
  with step have "worker_step exec n w s = Some s'" by simp
  then obtain k' s1 where w: "w < length (workers s)"
    and op: "worker_op exec n w (workers s ! w) s = Some (k', s1)"
    and s': "s' = s1\<lparr>workers := (workers s)[w := k']\<rparr>"
    by (rule worker_stepE)
  show ?thesis
    unfolding inv_single_def
  proof
    assume "length (workers s') = 1"
    then have len: "length (workers s) = 1" by (simp add: s')
    with w have w0: "w = 0" by simp
    from loc len have l: "linv exec s (workers s ! 0)" by (simp add: inv_local_def)
    from inv len have f: "fresh (stats s) (workers s ! 0)"
      and b: "bucket_sum (StatusCodes (stats s)) + owes_bucket (workers s ! 0)
        = bucket_sum (StatusCodes st0) + of_nat (length (responses exec (calls s)))"
      by (simp_all add: inv_single_def)
    from op w0 have op': "worker_op exec n w (workers s ! 0) s = Some (k', s1)" by simp
    have k': "workers s' ! 0 = k'" using len by (simp add: s' w0)
    have st: "stats s' = stats s1" "calls s' = calls s1" by (simp_all add: s')
    from single_op [OF op' l f b]
    show "fresh (stats s') (workers s' ! 0) \<and>
        bucket_sum (StatusCodes (stats s')) + owes_bucket (workers s' ! 0)
          = bucket_sum (StatusCodes st0) + of_nat (length (responses exec (calls s')))"
      by (simp add: k' st)
  qed
qed

lemma inv_single_run:
  assumes "Inv exec n st0 s" and "inv_single exec st0 s"
  shows "inv_single exec st0 (run exec n sched s)"
  using assms
proof (induction sched arbitrary: s)
  case Nil
  then show ?case by simp
next
  case (Cons t ts)
  show ?case
  proof (cases "step exec n t s")
    case None
    with Cons show ?thesis by (simp add: sched_step_def)
  next
    case (Some s')
    have "Inv exec n st0 s'" by (rule Inv_step [OF Some Cons.prems(1)])
    moreover from Cons.prems(1) have "inv_local exec s" by (simp add: Inv_def)
    with Some Cons.prems(2) have "inv_single exec st0 s'" by (rule inv_single_step)
    ultimately have "inv_single exec st0 (run exec n ts s')" by (rule Cons.IH)
    with Some show ?thesis by (simp add: sched_step_def)
  qed
qed

lemma inv_single_start: "inv_single exec st0 (start c st0)"
  by (simp add: inv_single_def start_def fresh_def idle_def owes_bucket_def responses_def)

lemma single_worker_histogram:
  assumes ran: "runLoadTest lib exec config new_stats sched = Ran s"
    and fin: "main s = Returned"
    and one: "Concurrency config = 1"
  shows "bucket_sum (StatusCodes (stats s)) = SuccessfulRequests (stats s)"
proof -
  let ?n = "nat (sint (NumRequests config))"
  from ran one have s: "s = run exec ?n sched (start 1 new_stats)"
    by (simp add: ran_iff)
  have inv: "Inv exec ?n new_stats s" unfolding s by (rule Inv_reach)
  have sg: "inv_single exec new_stats s"
    unfolding s by (rule inv_single_run [OF Inv_start inv_single_start])
  have len: "length (workers s) = 1" by (simp add: s run_length_workers start_def)
  with finished_workers [OF inv fin] have "pc (workers s ! 0) = Done"
    by (simp add: list_all_length)
  then have "owes_bucket (workers s ! 0) = 0" by (simp add: owes_bucket_def)
  with sg len have "bucket_sum (StatusCodes (stats s))
      = of_nat (length (responses exec (calls s)))"
    by (simp add: inv_single_def new_stats_def bucket_sum_def)
  with finished_counts(3) [OF inv fin] show ?thesis by (simp add: new_stats_def)
qed

subsection \<open>C10: the connections of the transport\<close>













lemma conn_step_conns_le:
  "conns (fst (conn_step exec n t e (p, s))) \<le> Suc (conns p)"
  by (cases e rule: event.exhaust; cases "case e of Thread th \<Rightarrow> th | _ \<Rightarrow> Main")
    (auto simp: conn_step_def getConn_def putConn_def split: option.splits if_splits)



















end
